theory Spec2Isabelle
  imports Complex_Main "HOL-Library.Sublist" "HOL-Library.Multiset"
begin

chapter \<open>The model\<close>

section \<open>isDataUri\<close>

text \<open>
  The source tests a string against the regular expression literal \<open>/^data:/i\<close>.
  A pattern is a sequence of terms: the assertion \<open>^\<close> and literal characters.
  The flag \<open>i\<close> is the field \<open>ignoreCase\<close>.
\<close>

datatype regex_term = AssertStart | Character char

record regexp =
  pattern :: "regex_term list"
  ignoreCase :: bool

text \<open>
  Canonicalize of ECMAScript (non-unicode mode): with \<open>ignoreCase\<close> a character is
  compared through its upper case form. A code unit outside ASCII is never mapped to an
  ASCII one, so only the letters \<open>a\<close> to \<open>z\<close> change here.
\<close>

definition canonicalize :: "bool \<Rightarrow> char \<Rightarrow> char" where
  "canonicalize ic ch =
     (if ic \<and> 97 \<le> (of_char ch :: nat) \<and> (of_char ch :: nat) \<le> 122
      then char_of ((of_char ch :: nat) - 32) else ch)"

text \<open>
  Matching a pattern at index \<open>i\<close> of the input: \<open>^\<close> holds at index 0 only (the
  multiline flag is not set), a literal consumes one character.
\<close>

fun matchAt :: "bool \<Rightarrow> regex_term list \<Rightarrow> string \<Rightarrow> nat \<Rightarrow> bool" where
  "matchAt ic [] s i = True"
| "matchAt ic (AssertStart # ps) s i = (i = 0 \<and> matchAt ic ps s i)"
| "matchAt ic (Character c # ps) s i =
     (i < length s \<and> canonicalize ic (s ! i) = canonicalize ic c \<and> matchAt ic ps s (Suc i))"

text \<open>
  \<open>RegExp.prototype.test\<close> of a regular expression without the global flag: the
  match is tried at every start index from 0 to the length of the input.
\<close>

definition regexp_test :: "regexp \<Rightarrow> string \<Rightarrow> bool" where
  "regexp_test r s = list_ex (matchAt (ignoreCase r) (pattern r) s) [0..<Suc (length s)]"

definition dataUriRegex :: regexp where
  "dataUriRegex =
     \<lparr>pattern = [AssertStart, Character CHR ''d'', Character CHR ''a'', Character CHR ''t'',
                  Character CHR ''a'', Character CHR '':''],
      ignoreCase = True\<rparr>"

text \<open>
  \<open>isDataUri(uri)\<close>. The debug check \<open>Check.typeOf.string\<close> rejects a value that
  is not a string; the argument type excludes such a value.
\<close>

definition isDataUri :: "string \<Rightarrow> bool" where
  "isDataUri uri = regexp_test dataUriRegex uri"

text \<open>
  The words of the specification: the string begins with the five characters
  \<open>data:\<close>, the four letters in either case.
\<close>

definition beginsWithDataColon :: "string \<Rightarrow> bool" where
  "beginsWithDataColon uri =
     (case uri of
        c1 # c2 # c3 # c4 # c5 # rest \<Rightarrow>
          (c1 = CHR ''d'' \<or> c1 = CHR ''D'') \<and> (c2 = CHR ''a'' \<or> c2 = CHR ''A'') \<and>
          (c3 = CHR ''t'' \<or> c3 = CHR ''T'') \<and> (c4 = CHR ''a'' \<or> c4 = CHR ''A'') \<and>
          c5 = CHR '':''
      | _ \<Rightarrow> False)"

section \<open>The tileset: data model\<close>

text \<open>
  Tiles are objects shared between the tileset's lists (requested tiles, processing
  queue, cache): the lists hold references. The model keeps every tile in a store
  indexed by a tile id; the lists hold ids. JavaScript numbers that count are integers,
  the other numbers are reals (no NaN and no infinity).
\<close>

type_synonym tile_id = nat

text \<open>
  Modelled from the spec: the enumerations \<open>Cesium3DTileContentState\<close> and
  \<open>Cesium3DTileRefine\<close>, whose declarations are not among the sources (spec section 3:
  the content state machine and the refinement modes).
\<close>

datatype Cesium3DTileContentState = UNLOADED | LOADING | PROCESSING | READY | EXPIRED | FAILED

datatype Cesium3DTileRefine = ADD | REPLACE

text \<open>The byte sizes a tile content reports.\<close>

record tileContent =
  contentGeometryByteLength :: int
  contentTexturesByteLength :: int
  contentBatchTableByteLength :: int

text \<open>
  A tile of the tileset JSON: its \<open>refine\<close> property, when it has one, and its
  \<open>children\<close> array, when it has one.
\<close>

datatype tileHeader = TileHeader (refineName: "string option") (children: "tileHeader list option")

text \<open>
  The fields of a tile that the tileset code reads or writes (\<open>_header\<close>, \<open>refine\<close>,
  \<open>_depth\<close>, \<open>childrenTile\<close>, \<open>_priority\<close>, \<open>_contentState\<close>, \<open>hasEmptyContent\<close>,
  \<open>hasTilesetContent\<close>, \<open>content\<close>, \<open>_contentResource.url\<close>).
\<close>

record tile =
  header :: tileHeader
  refine :: Cesium3DTileRefine
  depth :: int
  childrenTile :: "tile_id list"
  priority :: real
  contentState :: Cesium3DTileContentState
  hasEmptyContent :: bool
  hasTilesetContent :: bool
  content :: "tileContent option"
  url :: string

text \<open>
  Modelled from the spec: the getter \<open>contentExpired\<close> of the tile class, which is not
  among the sources (spec section 3: a tile may be \<open>EXPIRED\<close>).
\<close>

definition contentExpired :: "tile \<Rightarrow> bool" where
  "contentExpired tile = (contentState tile = EXPIRED)"

record Cesium3DTilesetStatistics =
  selected :: int
  numberOfCommands :: int
  numberOfAttemptedRequests :: int
  numberOfPendingRequests :: int
  numberOfTilesProcessing :: int
  numberOfTilesWithContentReady :: int
  numberOfTilesTotal :: int
  geometryByteLength :: int
  texturesByteLength :: int
  batchTableByteLength :: int

text \<open>
  Modelled from the spec: \<open>incrementLoadCounts\<close> and \<open>decrementLoadCounts\<close> of the
  statistics class, which is not among the sources (spec section 3: byte totals are
  added on load and subtracted on eviction). A tile without content adds nothing.
\<close>

definition incrementLoadCounts ::
  "Cesium3DTilesetStatistics \<Rightarrow> tileContent option \<Rightarrow> Cesium3DTilesetStatistics" where
  "incrementLoadCounts st c =
     (case c of None \<Rightarrow> st
      | Some k \<Rightarrow> st\<lparr>geometryByteLength := geometryByteLength st + contentGeometryByteLength k,
                     texturesByteLength := texturesByteLength st + contentTexturesByteLength k,
                     batchTableByteLength := batchTableByteLength st + contentBatchTableByteLength k\<rparr>)"

definition decrementLoadCounts ::
  "Cesium3DTilesetStatistics \<Rightarrow> tileContent option \<Rightarrow> Cesium3DTilesetStatistics" where
  "decrementLoadCounts st c =
     (case c of None \<Rightarrow> st
      | Some k \<Rightarrow> st\<lparr>geometryByteLength := geometryByteLength st - contentGeometryByteLength k,
                     texturesByteLength := texturesByteLength st - contentTexturesByteLength k,
                     batchTableByteLength := batchTableByteLength st - contentBatchTableByteLength k\<rparr>)"

text \<open>
  Modelled from the spec: the resident cache \<open>Cesium3DTilesetCache\<close>, which is not
  among the sources (spec sections 3 and 4.4). An entry is a tile with its last-touched
  sequence number; the list runs from the least recently used entry to the most recent
  one. \<open>clock\<close> is the next sequence number, \<open>frameStart\<close> the sequence number at
  which the current frame began: an entry was touched in the current frame when its
  number is not below \<open>frameStart\<close>.
\<close>

record Cesium3DTilesetCache =
  entries :: "(tile_id \<times> nat) list"
  clock :: nat
  frameStart :: nat

definition cache_add :: "Cesium3DTilesetCache \<Rightarrow> tile_id \<Rightarrow> Cesium3DTilesetCache" where
  "cache_add c t =
     (if t \<in> fst ` set (entries c) then c
      else c\<lparr>entries := entries c @ [(t, clock c)], clock := Suc (clock c)\<rparr>)"

text \<open>What the tileset tells the outside: the events it raises and the console lines.\<close>

datatype notification =
  TileLoad tile_id | TileUnload tile_id | TileVisible tile_id
  | TileFailed string string | ConsoleLog string

text \<open>
  A draw command is opaque to the tileset; a cell of a JavaScript array that was never
  written reads \<open>undefined\<close>.
\<close>

datatype command = Undefined | ClearCommand int int | DrawCommand nat

text \<open>
  The fields of the tileset. \<open>fetches\<close> lists the content requests handed to the
  fetch service, in the order they were issued; \<open>notifications\<close> is the log of raised
  events and console lines; \<open>tileFailedListeners\<close> is
  \<open>tileFailed.numberOfListeners\<close>; \<open>nextTile\<close> is the id the next created tile gets.
  \<open>basePath\<close> is \<open>None\<close> while \<open>_basePath\<close> is undefined.
\<close>

record tileset =
  tiles :: "tile_id \<Rightarrow> tile"
  nextTile :: tile_id
  rootTile :: "tile_id option"
  visible :: bool
  basePath :: "string option"
  cache :: Cesium3DTilesetCache
  processingQueue :: "tile_id list"
  selectedTiles :: "tile_id list"
  emptyTiles :: "tile_id list"
  requestedTiles :: "tile_id list"
  allTilesAdditive :: bool
  hasMixedContent :: bool
  skipLevelOfDetail :: bool
  backfaceCommands :: "command list"
  maximumScreenSpaceError :: real
  maximumMemoryUsage :: real
  dynamicScreenSpaceErrorDensity :: real
  dynamicScreenSpaceErrorHeightFalloff :: real
  dynamicScreenSpaceErrorComputedDensity :: real
  statistics :: Cesium3DTilesetStatistics
  tileFailedListeners :: nat
  notifications :: "notification list"
  fetches :: "tile_id list"

record frameState =
  commandList :: "command list"
  stencilBuffer :: bool

section \<open>The load pipeline\<close>

subsection \<open>filterProcessingQueue\<close>

text \<open>
  The loop of \<open>filterProcessingQueue\<close>: \<open>i\<close> runs over the indices below
  \<open>length\<close>; a tile that left the \<open>PROCESSING\<close> state is counted in \<open>removeCount\<close>,
  a tile that stays is written \<open>removeCount\<close> cells to the left. The result is the array
  and the final \<open>removeCount\<close>.
\<close>

function filterLoop ::
  "(tile_id \<Rightarrow> tile) \<Rightarrow> nat \<Rightarrow> tile_id list \<Rightarrow> nat \<Rightarrow> nat \<Rightarrow> tile_id list \<times> nat" where
  "filterLoop store len arr i removeCount =
     (if i < len then
        (let tile = arr ! i in
         if contentState (store tile) \<noteq> PROCESSING then filterLoop store len arr (Suc i) (Suc removeCount)
         else if removeCount > 0 then filterLoop store len (arr[i - removeCount := tile]) (Suc i) removeCount
         else filterLoop store len arr (Suc i) removeCount)
      else (arr, removeCount))"
  by pat_completeness auto

termination
  by (relation "measure (\<lambda>(store, len, arr, i, removeCount). len - i)") auto

declare filterLoop.simps [simp del]

text \<open>\<open>tiles.length -= removeCount\<close> truncates the array.\<close>

definition filterProcessingQueue :: "tileset \<Rightarrow> tileset" where
  "filterProcessingQueue ts =
     (let arr = processingQueue ts;
          len = length arr;
          (arr', removeCount) = filterLoop (tiles ts) len arr 0 0
      in ts\<lparr>processingQueue := take (length arr' - removeCount) arr'\<rparr>)"

text \<open>
  The constructor's values for the fields of the model (the options left at their
  defaults), with no tile created yet; and a tile as the store holds it before it is set up.
\<close>

definition blankTile :: tile where
  "blankTile =
     \<lparr>header = TileHeader None None, refine = REPLACE, depth = 0, childrenTile = [],
      priority = 0, contentState = UNLOADED, hasEmptyContent = False,
      hasTilesetContent = False, content = None, url = []\<rparr>"

definition newStatistics :: Cesium3DTilesetStatistics where
  "newStatistics =
     \<lparr>selected = 0, numberOfCommands = 0, numberOfAttemptedRequests = 0,
      numberOfPendingRequests = 0, numberOfTilesProcessing = 0,
      numberOfTilesWithContentReady = 0, numberOfTilesTotal = 0,
      geometryByteLength = 0, texturesByteLength = 0, batchTableByteLength = 0\<rparr>"

definition newTileset :: tileset where
  "newTileset =
     \<lparr>tiles = (\<lambda>_. blankTile), nextTile = 0, rootTile = None, visible = True, basePath = None,
      cache = \<lparr>entries = [], clock = 0, frameStart = 0\<rparr>,
      processingQueue = [], selectedTiles = [], emptyTiles = [], requestedTiles = [],
      allTilesAdditive = True, hasMixedContent = False, skipLevelOfDetail = True,
      backfaceCommands = [], maximumScreenSpaceError = 16, maximumMemoryUsage = 512,
      dynamicScreenSpaceErrorDensity = 278 / 100000,
      dynamicScreenSpaceErrorHeightFalloff = 1 / 4,
      dynamicScreenSpaceErrorComputedDensity = 0,
      statistics = newStatistics, tileFailedListeners = 0, notifications = [], fetches = []\<rparr>"

subsection \<open>The continuations of a content request\<close>

text \<open>\<open>Array.prototype.indexOf\<close>: the first index of the element, or \<open>-1\<close>.\<close>

fun indexOf :: "'a list \<Rightarrow> 'a \<Rightarrow> int" where
  "indexOf [] x = - 1"
| "indexOf (y # ys) x =
     (if y = x then 0 else (let k = indexOf ys x in if k < 0 then - 1 else k + 1))"

text \<open>
  \<open>addToProcessingQueue(tileset, tile)\<close> returns the continuation that runs when the
  tile's content is ready to be processed; the model is the body of that continuation.
  The same holds for \<open>handleTileSuccess\<close> and \<open>handleTileFailure\<close>.
\<close>

definition addToProcessingQueue :: "tileset \<Rightarrow> tile_id \<Rightarrow> tileset" where
  "addToProcessingQueue ts t =
     ts\<lparr>processingQueue := processingQueue ts @ [t],
        statistics := (statistics ts)
          \<lparr>numberOfPendingRequests := numberOfPendingRequests (statistics ts) - 1,
           numberOfTilesProcessing := numberOfTilesProcessing (statistics ts) + 1\<rparr>\<rparr>"

definition handleTileSuccess :: "tileset \<Rightarrow> tile_id \<Rightarrow> tileset" where
  "handleTileSuccess ts t =
     (let st1 = (statistics ts)\<lparr>numberOfTilesProcessing := numberOfTilesProcessing (statistics ts) - 1\<rparr>;
          tile = tiles ts t;
          ts1 = (if \<not> hasTilesetContent tile then
                   (let st2 = incrementLoadCounts st1 (content tile);
                        st3 = st2\<lparr>numberOfTilesWithContentReady := numberOfTilesWithContentReady st2 + 1\<rparr>
                    in ts\<lparr>statistics := st3, cache := cache_add (cache ts) t\<rparr>)
                 else ts\<lparr>statistics := st1\<rparr>)
      in ts1\<lparr>notifications := notifications ts1 @ [TileLoad t]\<rparr>)"

text \<open>
  The error is modelled by its message (\<open>error.message\<close>, or \<open>error.toString()\<close>
  when it has none).
\<close>

definition handleTileFailure :: "tileset \<Rightarrow> tile_id \<Rightarrow> string \<Rightarrow> tileset" where
  "handleTileFailure ts t message =
     (let st = statistics ts;
          ts1 = (if indexOf (processingQueue ts) t \<ge> 0
                 then ts\<lparr>statistics := st\<lparr>numberOfTilesProcessing := numberOfTilesProcessing st - 1\<rparr>\<rparr>
                 else ts\<lparr>statistics := st\<lparr>numberOfPendingRequests := numberOfPendingRequests st - 1\<rparr>\<rparr>);
          u = url (tiles ts t)
      in if tileFailedListeners ts > 0
         then ts1\<lparr>notifications := notifications ts1 @ [TileFailed u message]\<rparr>
         else ts1\<lparr>notifications := notifications ts1 @
                  [ConsoleLog (''A 3D tile failed to load: '' @ u), ConsoleLog (''Error: '' @ message)]\<rparr>)"

text \<open>
  Modelled from the spec: how the tile class settles the promises of a request; the
  class is not among the sources (spec sections 3 and 4.3). When the raw content is
  available the tile becomes \<open>PROCESSING\<close> and the first continuation runs; when the
  content is ready the tile becomes \<open>READY\<close> and the success continuation runs; on an
  error the tile becomes \<open>FAILED\<close> and the failure continuation runs.
\<close>

definition tile_setContentState :: "tileset \<Rightarrow> tile_id \<Rightarrow> Cesium3DTileContentState \<Rightarrow> tileset" where
  "tile_setContentState ts t s = ts\<lparr>tiles := (tiles ts)(t := (tiles ts t)\<lparr>contentState := s\<rparr>)\<rparr>"

definition contentReadyToProcess :: "tileset \<Rightarrow> tile_id \<Rightarrow> tileset" where
  "contentReadyToProcess ts t = addToProcessingQueue (tile_setContentState ts t PROCESSING) t"

definition contentReady :: "tileset \<Rightarrow> tile_id \<Rightarrow> tileset" where
  "contentReady ts t = handleTileSuccess (tile_setContentState ts t READY) t"

definition contentFailed :: "tileset \<Rightarrow> tile_id \<Rightarrow> string \<Rightarrow> tileset" where
  "contentFailed ts t message = handleTileFailure (tile_setContentState ts t FAILED) t message"

subsection \<open>requestContent and requestTiles\<close>

text \<open>
  Modelled from the spec: the method \<open>requestContent\<close> of the tile class, which is not
  among the sources (spec section 4.1: the tile moves to \<open>LOADING\<close> if the request is
  under the global concurrent-request limit, and the call returns false if the limit is
  saturated). Whether the limit admits the request is the parameter \<open>grant\<close>. A granted
  request is handed to the fetch service.
\<close>

definition tile_requestContent ::
  "(tileset \<Rightarrow> tile_id \<Rightarrow> bool) \<Rightarrow> tileset \<Rightarrow> tile_id \<Rightarrow> bool \<times> tileset" where
  "tile_requestContent grant ts t =
     (if grant ts t
      then (True, ts\<lparr>tiles := (tiles ts)(t := (tiles ts t)\<lparr>contentState := LOADING\<rparr>),
                     fetches := fetches ts @ [t]\<rparr>)
      else (False, ts))"

text \<open>
  \<open>requestContent(tileset, tile)\<close>. In the branch of an expired tile with tileset
  content the source has the call \<open>destroySubtree(tileset, tile)\<close> commented out: the
  branch is empty. The two \<open>then\<close> registrations at the end attach the continuations
  above to the promises of the tile; they change no field of the tileset.
\<close>

definition requestContent :: "(tileset \<Rightarrow> tile_id \<Rightarrow> bool) \<Rightarrow> tileset \<Rightarrow> tile_id \<Rightarrow> tileset" where
  "requestContent grant ts t =
     (if hasEmptyContent (tiles ts t) then ts
      else
        (let expired = contentExpired (tiles ts t);
             (requested, ts1) = tile_requestContent grant ts t
         in if \<not> requested
            then ts1\<lparr>statistics := (statistics ts1)
                   \<lparr>numberOfAttemptedRequests := numberOfAttemptedRequests (statistics ts1) + 1\<rparr>\<rparr>
            else
              (let ts2 =
                 (if expired then
                    (if hasTilesetContent (tiles ts1 t) then ts1
                     else
                       (let st1 = decrementLoadCounts (statistics ts1) (content (tiles ts1 t))
                        in ts1\<lparr>statistics :=
                             st1\<lparr>numberOfTilesWithContentReady := numberOfTilesWithContentReady st1 - 1\<rparr>\<rparr>))
                  else ts1)
               in ts2\<lparr>statistics := (statistics ts2)
                     \<lparr>numberOfPendingRequests := numberOfPendingRequests (statistics ts2) + 1\<rparr>\<rparr>)))"

text \<open>
  \<open>Array.prototype.sort\<close> with a comparison function: the language guarantees a
  stable sort for a consistent comparator. It is written here as an insertion sort that
  puts an element before the first one it does not come after.
\<close>

fun insertSorted :: "('a \<Rightarrow> 'a \<Rightarrow> real) \<Rightarrow> 'a \<Rightarrow> 'a list \<Rightarrow> 'a list" where
  "insertSorted cmp x [] = [x]"
| "insertSorted cmp x (y # ys) = (if cmp x y \<le> 0 then x # y # ys else y # insertSorted cmp x ys)"

definition array_sort :: "('a \<Rightarrow> 'a \<Rightarrow> real) \<Rightarrow> 'a list \<Rightarrow> 'a list" where
  "array_sort cmp xs = foldr (insertSorted cmp) xs []"

definition sortRequestByPriority :: "(tile_id \<Rightarrow> tile) \<Rightarrow> tile_id \<Rightarrow> tile_id \<Rightarrow> real" where
  "sortRequestByPriority store a b = priority (store a) - priority (store b)"

text \<open>The loop of \<open>requestTiles\<close>, reading \<open>requestedTiles[i]\<close> at every step.\<close>

function requestLoop :: "(tileset \<Rightarrow> tile_id \<Rightarrow> bool) \<Rightarrow> tileset \<Rightarrow> nat \<Rightarrow> nat \<Rightarrow> tileset" where
  "requestLoop grant ts i len =
     (if i < len then requestLoop grant (requestContent grant ts (requestedTiles ts ! i)) (Suc i) len
      else ts)"
  by pat_completeness auto

termination
  by (relation "measure (\<lambda>(grant, ts, i, len). len - i)") auto

declare requestLoop.simps [simp del]

definition requestTiles :: "(tileset \<Rightarrow> tile_id \<Rightarrow> bool) \<Rightarrow> tileset \<Rightarrow> tileset" where
  "requestTiles grant ts =
     (let len = length (requestedTiles ts);
          ts1 = ts\<lparr>requestedTiles := array_sort (sortRequestByPriority (tiles ts)) (requestedTiles ts)\<rparr>
      in requestLoop grant ts1 0 len)"

subsection \<open>processTiles\<close>

text \<open>
  Modelled from the spec: the method \<open>process\<close> of the tile class, which is not among
  the sources (spec section 4.1: it advances a \<open>PROCESSING\<close> tile; on completion the
  tile becomes \<open>READY\<close> and the content-ready continuation runs; on an error the tile
  becomes \<open>FAILED\<close> and the content-failure continuation runs). What the content
  processor does with a tile in this frame is the parameter \<open>advance\<close>.
\<close>

datatype processing = StillProcessing | BecomesReady | Fails string

definition tile_process ::
  "(tileset \<Rightarrow> tile_id \<Rightarrow> processing) \<Rightarrow> tileset \<Rightarrow> tile_id \<Rightarrow> tileset" where
  "tile_process advance ts t =
     (case advance ts t of
        StillProcessing \<Rightarrow> ts
      | BecomesReady \<Rightarrow> contentReady ts t
      | Fails message \<Rightarrow> contentFailed ts t message)"

function processLoop ::
  "(tileset \<Rightarrow> tile_id \<Rightarrow> processing) \<Rightarrow> tileset \<Rightarrow> nat \<Rightarrow> nat \<Rightarrow> tileset" where
  "processLoop advance ts i len =
     (if i < len then processLoop advance (tile_process advance ts (processingQueue ts ! i)) (Suc i) len
      else ts)"
  by pat_completeness auto

termination
  by (relation "measure (\<lambda>(advance, ts, i, len). len - i)") auto

declare processLoop.simps [simp del]

definition processTiles :: "(tileset \<Rightarrow> tile_id \<Rightarrow> processing) \<Rightarrow> tileset \<Rightarrow> tileset" where
  "processTiles advance ts =
     (let ts1 = filterProcessingQueue ts;
          len = length (processingQueue ts1)
      in processLoop advance ts1 0 len)"

subsection \<open>Unloading\<close>

text \<open>The getter \<open>totalMemoryUsageInBytes\<close>.\<close>

definition totalMemoryUsageInBytes :: "tileset \<Rightarrow> int" where
  "totalMemoryUsageInBytes ts =
     texturesByteLength (statistics ts) + geometryByteLength (statistics ts)
       + batchTableByteLength (statistics ts)"

text \<open>
  Modelled from the spec: the method \<open>unloadContent\<close> of the tile class, which is not
  among the sources (spec sections 3 and 8: the content is released and the tile is
  \<open>UNLOADED\<close> again).
\<close>

definition tile_unloadContent :: "tile \<Rightarrow> tile" where
  "tile_unloadContent tile = tile\<lparr>content := None, contentState := UNLOADED\<rparr>"

definition unloadTile :: "tileset \<Rightarrow> tile_id \<Rightarrow> tileset" where
  "unloadTile ts t =
     (let ts1 = ts\<lparr>notifications := notifications ts @ [TileUnload t]\<rparr>;
          st1 = decrementLoadCounts (statistics ts1) (content (tiles ts1 t));
          ts2 = ts1\<lparr>statistics := st1\<lparr>numberOfTilesWithContentReady := numberOfTilesWithContentReady st1 - 1\<rparr>\<rparr>
      in ts2\<lparr>tiles := (tiles ts2)(t := tile_unloadContent (tiles ts2 t))\<rparr>)"

text \<open>
  Modelled from the spec: the method \<open>unloadTiles\<close> of the cache, which is not among
  the sources (spec section 4.4): while the total resident bytes exceed
  \<open>maximumMemoryUsage\<close> and the least recently used entry was not touched in the current
  frame, that entry is removed and handed to the unload callback.
\<close>

fun cache_unloadTiles ::
  "(tileset \<Rightarrow> tile_id \<Rightarrow> tileset) \<Rightarrow> tileset \<Rightarrow> (tile_id \<times> nat) list \<Rightarrow> tileset" where
  "cache_unloadTiles unloadCallback ts [] = ts\<lparr>cache := (cache ts)\<lparr>entries := []\<rparr>\<rparr>"
| "cache_unloadTiles unloadCallback ts ((t, n) # rest) =
     (if real_of_int (totalMemoryUsageInBytes ts) > maximumMemoryUsage ts \<and> n < frameStart (cache ts)
      then cache_unloadTiles unloadCallback (unloadCallback ts t) rest
      else ts\<lparr>cache := (cache ts)\<lparr>entries := (t, n) # rest\<rparr>\<rparr>)"

definition unloadTiles :: "tileset \<Rightarrow> tileset" where
  "unloadTiles ts = cache_unloadTiles unloadTile ts (entries (cache ts))"

subsection \<open>The frame update\<close>

text \<open>
  \<open>updateFixedFrame(frameState)\<close>. The traversal \<open>Cesium3DTilesetTraversal.selectTiles\<close>
  is not among the sources and is the parameter \<open>selectTiles\<close>. In the source the
  statistics reset, the cache reset, \<open>updateTiles\<close> and \<open>unloadTiles\<close> are commented
  out: the body clears the requested tiles, traverses, requests and processes.
\<close>

definition ready :: "tileset \<Rightarrow> bool" where
  "ready ts = (rootTile ts \<noteq> None)"

definition updateFixedFrame ::
  "(tileset \<Rightarrow> frameState \<Rightarrow> tileset) \<Rightarrow> (tileset \<Rightarrow> tile_id \<Rightarrow> bool) \<Rightarrow>
   (tileset \<Rightarrow> tile_id \<Rightarrow> processing) \<Rightarrow> tileset \<Rightarrow> frameState \<Rightarrow> tileset" where
  "updateFixedFrame selectTiles grant advance ts fs =
     (if \<not> ready ts \<or> \<not> visible ts then ts
      else
        (let ts1 = ts\<lparr>requestedTiles := []\<rparr>;
             ts2 = selectTiles ts1 fs;
             ts3 = requestTiles grant ts2
         in processTiles advance ts3))"

section \<open>Traces, the words of the specification, and example tilesets\<close>

subsection \<open>Requests are issued in priority order\<close>

text \<open>
  Example parameters: a request limit that admits every request, a content processor
  that finishes no tile in the frame, and a traversal that selects and requests nothing.
\<close>

definition grantAll :: "tileset \<Rightarrow> tile_id \<Rightarrow> bool" where
  "grantAll ts t = True"

definition stillProcessing :: "tileset \<Rightarrow> tile_id \<Rightarrow> processing" where
  "stillProcessing ts t = StillProcessing"

definition traverseNothing :: "tileset \<Rightarrow> frameState \<Rightarrow> tileset" where
  "traverseNothing ts fs = ts"

text \<open>
  An example: four requested tiles with the priorities 5, 1, 3 and 2; the third has
  empty content.
\<close>

definition threeRequests :: tileset where
  "threeRequests =
     newTileset\<lparr>tiles := (\<lambda>_. blankTile)(1 := blankTile\<lparr>priority := 5\<rparr>,
                                            2 := blankTile\<lparr>priority := 1\<rparr>,
                                            3 := blankTile\<lparr>priority := 3, hasEmptyContent := True\<rparr>,
                                            4 := blankTile\<lparr>priority := 2\<rparr>),
                 requestedTiles := [1, 2, 3, 4]\<rparr>"

subsection \<open>The pending-request count of a request\<close>

text \<open>
  What can happen in the pipeline, one event at a time: the filter of the processing
  queue that every frame runs in \<open>processTiles\<close>, a call of \<open>requestContent\<close> for a
  tile, and the three ways the tile class settles the promises of a tile. A trace is a
  list of events, run from left to right.
\<close>

datatype pipelineEvent =
  Frame | Requested tile_id | ReadyToProcess tile_id | Ready tile_id | Failed tile_id string

fun occur :: "(tileset \<Rightarrow> tile_id \<Rightarrow> bool) \<Rightarrow> tileset \<Rightarrow> pipelineEvent \<Rightarrow> tileset" where
  "occur grant ts Frame = filterProcessingQueue ts"
| "occur grant ts (Requested u) = requestContent grant ts u"
| "occur grant ts (ReadyToProcess u) = contentReadyToProcess ts u"
| "occur grant ts (Ready u) = contentReady ts u"
| "occur grant ts (Failed u message) = contentFailed ts u message"


definition run :: "(tileset \<Rightarrow> tile_id \<Rightarrow> bool) \<Rightarrow> tileset \<Rightarrow> pipelineEvent list \<Rightarrow> tileset" where
  "run grant ts es = foldl (occur grant) ts es"


subsection \<open>Requesting an expired tile\<close>

text \<open>
  The words of the specification for an expired tile with tileset content: its old
  subtree is discarded, so the tile has no children left.
\<close>

definition subtreeDiscarded :: "tileset \<Rightarrow> tile_id \<Rightarrow> bool" where
  "subtreeDiscarded ts t = (childrenTile (tiles ts t) = [])"

text \<open>
  An example: tile 1 is expired, has tileset content and has the child tile 2.
\<close>

definition expiredTileset :: tileset where
  "expiredTileset =
     newTileset\<lparr>tiles := (\<lambda>_. blankTile)
                   (1 := blankTile\<lparr>contentState := EXPIRED, hasTilesetContent := True, childrenTile := [2]\<rparr>,
                    2 := blankTile\<lparr>contentState := READY\<rparr>)\<rparr>"

subsection \<open>The frame update and the resident cache\<close>

text \<open>
  The words of the specification for the end of the eviction: the total resident bytes
  are within \<open>maximumMemoryUsage\<close>, or the least recently used entry was touched in the
  current frame.
\<close>

definition evictionStopped :: "tileset \<Rightarrow> bool" where
  "evictionStopped ts =
     (real_of_int (totalMemoryUsageInBytes ts) \<le> maximumMemoryUsage ts \<or>
      (case entries (cache ts) of [] \<Rightarrow> True | (t, n) # rest \<Rightarrow> frameStart (cache ts) \<le> n))"

text \<open>The notifications that report an unloaded tile.\<close>

fun isTileUnload :: "notification \<Rightarrow> bool" where
  "isTileUnload (TileUnload t) = True"
| "isTileUnload e = False"

text \<open>
  Nothing is evicted between two states when every cache entry of the first is still an
  entry of the second, in place, the second has raised no further tile-unloaded
  notification, and every tile has the content it had.
\<close>

definition nothingEvicted :: "tileset \<Rightarrow> tileset \<Rightarrow> bool" where
  "nothingEvicted ts ts' =
     (prefix (entries (cache ts)) (entries (cache ts')) \<and>
      prefix (notifications ts) (notifications ts') \<and>
      filter isTileUnload (notifications ts') = filter isTileUnload (notifications ts) \<and>
      (\<forall>u. content (tiles ts' u) = content (tiles ts u)))"

text \<open>
  An example: a ready, visible tileset whose only resident tile holds 1000 bytes, over
  the default budget of 512; its cache entry has the sequence number 0 and the current
  frame began at sequence number 1.
\<close>

definition overBudget :: tileset where
  "overBudget =
     newTileset\<lparr>tiles := (\<lambda>_. blankTile)
                   (1 := blankTile\<lparr>contentState := READY,
                        content := Some \<lparr>contentGeometryByteLength = 1000, contentTexturesByteLength = 0,
                                         contentBatchTableByteLength = 0\<rparr>\<rparr>),
                 rootTile := Some 1,
                 cache := \<lparr>entries = [(1, 0)], clock = 1, frameStart = 1\<rparr>,
                 statistics := newStatistics\<lparr>geometryByteLength := 1000, numberOfTilesWithContentReady := 1\<rparr>\<rparr>"

section \<open>updateTiles\<close>

text \<open>The constant \<open>stencilClearCommand\<close>: a clear command with stencil 0 in pass 4.\<close>

definition stencilClearCommand :: command where
  "stencilClearCommand = ClearCommand 0 4"

text \<open>
  Modelled from the spec: \<open>incrementSelectionCounts\<close> of the statistics class, which
  is not among the sources. The counters it maintains (features, points and triangles
  selected) are not among the statistics the spec lists (section 3), so the modelled
  statistics are left as they are.
\<close>

definition incrementSelectionCounts ::
  "Cesium3DTilesetStatistics \<Rightarrow> tileContent option \<Rightarrow> Cesium3DTilesetStatistics" where
  "incrementSelectionCounts st c = st"

text \<open>
  Modelled from the spec: the method \<open>update\<close> of the tile class, which is not among
  the sources (spec section 6: a selected tile is submitted for drawing, and backface
  draws are kept apart for the skip-LOD ordering). The parameter \<open>drawTile\<close> gives, for
  a tile, the commands its update pushes on the command list of the frame and the
  commands it pushes on the backface commands of the tileset.
\<close>

definition tile_update ::
  "(tile_id \<Rightarrow> command list \<times> command list) \<Rightarrow> tileset \<times> frameState \<Rightarrow> tile_id \<Rightarrow> tileset \<times> frameState" where
  "tile_update drawTile sf t =
     (case sf of (ts, fs) \<Rightarrow>
        (ts\<lparr>backfaceCommands := backfaceCommands ts @ snd (drawTile t)\<rparr>,
         fs\<lparr>commandList := commandList fs @ fst (drawTile t)\<rparr>))"

text \<open>
  The body of the loop over the selected tiles: the \<open>tileVisible\<close> event is raised
  before the update, and the selection statistics are counted after it.
\<close>

definition updateSelected ::
  "(tile_id \<Rightarrow> command list \<times> command list) \<Rightarrow> tileset \<times> frameState \<Rightarrow> tile_id \<Rightarrow> tileset \<times> frameState" where
  "updateSelected drawTile sf t =
     (case sf of (ts, fs) \<Rightarrow>
        (case tile_update drawTile (ts\<lparr>notifications := notifications ts @ [TileVisible t]\<rparr>, fs) t of
           (ts1, fs1) \<Rightarrow>
             (let st1 = incrementSelectionCounts (statistics ts1) (content (tiles ts1 t))
              in (ts1\<lparr>statistics := st1\<lparr>selected := selected st1 + 1\<rparr>\<rparr>, fs1))))"

text \<open>
  The loop that copies the added commands to the back of the command list, from the
  last one down to the first (the argument counts the iterations left, so the step for
  \<open>Suc i\<close> is the iteration with index \<open>i\<close>), and the loop that moves the backface
  commands to the front. Every index they write is below the length of the list, which
  \<open>commandList.length += backfaceCommandsLength\<close> has extended.
\<close>

fun copyToBack :: "command list \<Rightarrow> nat \<Rightarrow> nat \<Rightarrow> nat \<Rightarrow> command list" where
  "copyToBack cl lengthBeforeUpdate backfaceCommandsLength 0 = cl"
| "copyToBack cl lengthBeforeUpdate backfaceCommandsLength (Suc i) =
     copyToBack (cl[lengthBeforeUpdate + backfaceCommandsLength + i := cl ! (lengthBeforeUpdate + i)])
       lengthBeforeUpdate backfaceCommandsLength i"

function moveToFront :: "command list \<Rightarrow> nat \<Rightarrow> command list \<Rightarrow> nat \<Rightarrow> nat \<Rightarrow> command list" where
  "moveToFront cl lengthBeforeUpdate backface i backfaceCommandsLength =
     (if i < backfaceCommandsLength
      then moveToFront (cl[lengthBeforeUpdate + i := backface ! i]) lengthBeforeUpdate backface (Suc i)
             backfaceCommandsLength
      else cl)"
  by pat_completeness auto

termination
  by (relation "measure (\<lambda>(cl, lb, backface, i, bl). bl - i)") auto

declare moveToFront.simps [simp del]

text \<open>
  \<open>updateTiles(tileset, frameState)\<close>. The loops over the selected and the empty tiles
  do not write the lists they run over and are folds. \<open>_backfaceCommands.trim()\<close>
  leaves the pushed commands as they are. The debug labels at the end of the source are
  not part of the model.
\<close>

definition updateTiles ::
  "(tile_id \<Rightarrow> command list \<times> command list) \<Rightarrow> tileset \<Rightarrow> frameState \<Rightarrow> tileset \<times> frameState" where
  "updateTiles drawTile ts fs =
     (let numberOfInitialCommands = length (commandList fs);
          selectedLength = length (selectedTiles ts);
          bivariateVisibilityTest =
            (skipLevelOfDetail ts \<and> hasMixedContent ts \<and> stencilBuffer fs \<and> selectedLength > 0);
          ts1 = ts\<lparr>backfaceCommands := []\<rparr>;
          fs1 = (if bivariateVisibilityTest
                 then fs\<lparr>commandList := commandList fs @ [stencilClearCommand]\<rparr> else fs);
          lengthBeforeUpdate = length (commandList fs1);
          (ts2, fs2) = foldl (updateSelected drawTile) (ts1, fs1) (selectedTiles ts);
          (ts3, fs3) = foldl (tile_update drawTile) (ts2, fs2) (emptyTiles ts);
          lengthAfterUpdate = length (commandList fs3);
          addedCommandsLength = lengthAfterUpdate - lengthBeforeUpdate;
          fs4 = (if bivariateVisibilityTest then
                   (let backface = backfaceCommands ts3;
                        backfaceCommandsLength = length backface;
                        cl1 = commandList fs3 @ replicate backfaceCommandsLength Undefined;
                        cl2 = copyToBack cl1 lengthBeforeUpdate backfaceCommandsLength addedCommandsLength;
                        cl3 = moveToFront cl2 lengthBeforeUpdate backface 0 backfaceCommandsLength
                    in fs3\<lparr>commandList := cl3\<rparr>)
                 else fs3)
      in (ts3\<lparr>statistics := (statistics ts3)
              \<lparr>numberOfCommands := int (length (commandList fs4)) - int numberOfInitialCommands\<rparr>\<rparr>,
          fs4))"

text \<open>
  The commands the updates of a list of tiles produce, in the order of the updates: for
  the command list of the frame and for the backface commands.
\<close>

definition frontfaceOf :: "(tile_id \<Rightarrow> command list \<times> command list) \<Rightarrow> tile_id list \<Rightarrow> command list" where
  "frontfaceOf drawTile ids = concat (map (\<lambda>t. fst (drawTile t)) ids)"

definition backfaceOf :: "(tile_id \<Rightarrow> command list \<times> command list) \<Rightarrow> tile_id list \<Rightarrow> command list" where
  "backfaceOf drawTile ids = concat (map (\<lambda>t. snd (drawTile t)) ids)"

section \<open>Configuration setters\<close>

text \<open>The errors the tileset code throws.\<close>

datatype error = DeveloperError string | RuntimeError string | TypeError string | ReferenceError string

text \<open>
  Modelled from the spec: \<open>Check.typeOf.number.greaterThanOrEquals(name, value, limit)\<close>,
  whose module is not among the sources (spec section 7: an invalid configuration value
  is rejected at the point of assignment with a precondition-style failure; section 6:
  the values must be at least 0). The failure is a \<open>DeveloperError\<close> that names the
  checked value. A value that is not a number is excluded by the argument type.
\<close>

definition Check_typeOf_number_greaterThanOrEquals :: "string \<Rightarrow> real \<Rightarrow> real \<Rightarrow> error option" where
  "Check_typeOf_number_greaterThanOrEquals name value limit =
     (if value < limit then Some (DeveloperError name) else None)"

text \<open>
  The setters of \<open>maximumScreenSpaceError\<close> and \<open>maximumMemoryUsage\<close>: the check runs
  first, and a thrown error leaves the assignment undone. The result is the error, if
  one was thrown, and the tileset after the call.
\<close>

definition set_maximumScreenSpaceError :: "tileset \<Rightarrow> real \<Rightarrow> error option \<times> tileset" where
  "set_maximumScreenSpaceError ts value =
     (case Check_typeOf_number_greaterThanOrEquals ''maximumScreenSpaceError'' value 0 of
        Some e \<Rightarrow> (Some e, ts)
      | None \<Rightarrow> (None, ts\<lparr>maximumScreenSpaceError := value\<rparr>))"

definition set_maximumMemoryUsage :: "tileset \<Rightarrow> real \<Rightarrow> error option \<times> tileset" where
  "set_maximumMemoryUsage ts value =
     (case Check_typeOf_number_greaterThanOrEquals ''value'' value 0 of
        Some e \<Rightarrow> (Some e, ts)
      | None \<Rightarrow> (None, ts\<lparr>maximumMemoryUsage := value\<rparr>))"

section \<open>updateDynamicScreenSpaceError\<close>






section \<open>loadTileset\<close>

text \<open>The tileset JSON: its \<open>asset\<close> property, when it has one, and its root tile.\<close>

record assetInfo =
  version :: string
  tilesetVersion :: "string option"

record tilesetJson =
  asset :: "assetInfo option"
  rootHeader :: tileHeader

text \<open>The number of tiles of a hierarchy: the tile and all tiles below it.\<close>

fun countTiles :: "tileHeader \<Rightarrow> nat" where
  "countTiles (TileHeader r None) = 1"
| "countTiles (TileHeader r (Some cs)) = Suc (sum_list (map countTiles cs))"

text \<open>
  The constructor of the tile class is not among the sources. It keeps the header it is
  given in \<open>_header\<close>; how it chooses the refine mode of the tile from the header and
  from the parent tile is the parameter \<open>refineOf\<close>, which gets the header and the
  refine mode of the parent, if there is a parent. \<open>newTile\<close> is \<open>new Tile(...)\<close>: the
  new tile gets the next id of the store.
\<close>

type_synonym refineRule = "tileHeader \<Rightarrow> Cesium3DTileRefine option \<Rightarrow> Cesium3DTileRefine"

definition newTile :: "refineRule \<Rightarrow> tileset \<Rightarrow> tileHeader \<Rightarrow> tile_id option \<Rightarrow> tile_id \<times> tileset" where
  "newTile refineOf ts h parent =
     (let t = nextTile ts;
          tile = blankTile\<lparr>header := h,
                           refine := refineOf h (map_option (\<lambda>p. refine (tiles ts p)) parent)\<rparr>
      in (t, ts\<lparr>tiles := (tiles ts)(t := tile), nextTile := Suc t\<rparr>))"

text \<open>
  \<open>parent.childrenTile.push(child)\<close> and \<open>child._depth = parent._depth + 1\<close>. The
  calls \<open>add\<close> of the scene graph are not part of the model.
\<close>

definition linkChild :: "tileset \<Rightarrow> tile_id \<Rightarrow> tile_id \<Rightarrow> tileset" where
  "linkChild ts parent child =
     (let ts1 = ts\<lparr>tiles := (tiles ts)
                  (parent := (tiles ts parent)\<lparr>childrenTile := childrenTile (tiles ts parent) @ [child]\<rparr>)\<rparr>
      in ts1\<lparr>tiles := (tiles ts1)
                  (child := (tiles ts1 child)\<lparr>depth := depth (tiles ts1 parent) + 1\<rparr>)\<rparr>)"

text \<open>
  The loop over the children of a header: every child header becomes a tile, linked to
  its parent and pushed on the stack. An entry of the stack is a tile together with its
  header, which the source reads from the tile (\<open>tile._header\<close>) and never changes.
\<close>

fun addChildren ::
  "refineRule \<Rightarrow> tileset \<Rightarrow> tile_id \<Rightarrow> (tile_id \<times> tileHeader) list \<Rightarrow> tileHeader list \<Rightarrow>
   tileset \<times> (tile_id \<times> tileHeader) list" where
  "addChildren refineOf ts t stack [] = (ts, stack)"
| "addChildren refineOf ts t stack (childHeader # rest) =
     (case newTile refineOf ts childHeader (Some t) of
        (childTile, ts1) \<Rightarrow>
          addChildren refineOf (linkChild ts1 t childTile) t (stack @ [(childTile, childHeader)]) rest)"

text \<open>The tiles still to be visited or created when the stack is as given.\<close>

definition stackTiles :: "(tile_id \<times> tileHeader) list \<Rightarrow> nat" where
  "stackTiles stack = sum_list (map countTiles (map snd stack))"

text \<open>
  One pass of the \<open>while\<close> loop: the tile on top of the stack is popped and counted,
  \<open>_allTilesAdditive\<close> is updated with its refine mode, and its children are created.
  The call \<open>checkChildrenWithinParent\<close> sets a field of the tile that is not part of the
  model.
\<close>

definition visit :: "refineRule \<Rightarrow> tileset \<Rightarrow> (tile_id \<times> tileHeader) list \<Rightarrow>
    tileset \<times> (tile_id \<times> tileHeader) list" where
  "visit refineOf ts stack =
     (case last stack of
        (t, h) \<Rightarrow>
          (let st = statistics ts;
               ts1 = ts\<lparr>statistics := st\<lparr>numberOfTilesTotal := numberOfTilesTotal st + 1\<rparr>\<rparr>;
               ts2 = ts1\<lparr>allTilesAdditive := (allTilesAdditive ts1 \<and> refine (tiles ts1 t) = ADD)\<rparr>
           in case children h of
                None \<Rightarrow> (ts2, butlast stack)
              | Some cs \<Rightarrow> addChildren refineOf ts2 t (butlast stack) cs))"

text \<open>The \<open>while (stack.length > 0)\<close> loop.\<close>

function loadLoop :: "refineRule \<Rightarrow> tileset \<Rightarrow> (tile_id \<times> tileHeader) list \<Rightarrow> tileset" where
  "loadLoop refineOf ts stack =
     (if length stack > 0
      then loadLoop refineOf (fst (visit refineOf ts stack)) (snd (visit refineOf ts stack))
      else ts)"
  by pat_completeness auto

text \<open>
  \<open>loadTileset(resource, tilesetJson, parentTile)\<close>: the two checks of the asset that
  throw a \<open>RuntimeError\<close>, the tileset version appended to the base path (the
  constructor leaves the base path undefined, and \<open>+=\<close> turns an undefined base path
  into the text \<open>undefined\<close>), the root tile,
  linked to the parent tile if there is one, and the loop. The query parameters of the
  resource are not part of the model. The result is the root tile and the tileset after
  the call.
\<close>

definition loadTileset ::
  "refineRule \<Rightarrow> tileset \<Rightarrow> tilesetJson \<Rightarrow> tile_id option \<Rightarrow> error + (tile_id \<times> tileset)" where
  "loadTileset refineOf ts json parentTile =
     (case asset json of
        None \<Rightarrow> Inl (RuntimeError ''Tileset must have an asset property.'')
      | Some a \<Rightarrow>
          if version a \<noteq> ''0.0'' \<and> version a \<noteq> ''1.0''
          then Inl (RuntimeError ''The tileset must be 3D Tiles version 0.0 or 1.0.'')
          else
            (let ts1 = (case tilesetVersion a of
                          Some v \<Rightarrow>
                            ts\<lparr>basePath := Some ((case basePath ts of None \<Rightarrow> ''undefined'' | Some b \<Rightarrow> b)
                                                @ ''?v='' @ v)\<rparr>
                        | None \<Rightarrow> ts)
             in case newTile refineOf ts1 (rootHeader json) parentTile of
                  (rootT, ts2) \<Rightarrow>
                    (let ts3 = (case parentTile of Some p \<Rightarrow> linkChild ts2 p rootT | None \<Rightarrow> ts2)
                     in Inr (rootT, loadLoop refineOf ts3 [(rootT, rootHeader json)]))))"

text \<open>
  The refine modes of a hierarchy of the tileset JSON, as the specification describes
  them: the mode of the tile itself, followed by the modes of the tiles of every child
  hierarchy, where the mode of a child is chosen by the constructor from the header of
  the child and the mode of its parent. This is the reference against which the tiles
  that \<open>loadTileset\<close> creates are compared; it is defined by recursion on the JSON and
  does not mention the stack or the store.
\<close>

fun hierarchyRefines :: "refineRule \<Rightarrow> Cesium3DTileRefine \<Rightarrow> tileHeader \<Rightarrow> Cesium3DTileRefine list" where
  "hierarchyRefines refineOf r (TileHeader n None) = [r]"
| "hierarchyRefines refineOf r (TileHeader n (Some cs)) =
     r # concat (map (\<lambda>c. hierarchyRefines refineOf (refineOf c (Some r)) c) cs)"

text \<open>
  The refine modes of the tiles still to be visited or created when the stack is as
  given: for every entry, the modes of the hierarchy below its header, starting from the
  mode its tile has in the store.
\<close>

definition stackRefines :: "refineRule \<Rightarrow> tileset \<Rightarrow> (tile_id \<times> tileHeader) list \<Rightarrow> Cesium3DTileRefine list" where
  "stackRefines refineOf ts stack =
     concat (map (\<lambda>e. hierarchyRefines refineOf (refine (tiles ts (fst e))) (snd e)) stack)"


text \<open>
  An example of a refine rule: the mode the header names, else the mode of the parent,
  else \<open>REPLACE\<close>; and a tileset JSON whose root is additive and has two children, the
  second one replacing.
\<close>

definition refineFromHeader :: refineRule where
  "refineFromHeader h parentRefine =
     (case refineName h of
        Some n \<Rightarrow> (if n = ''REPLACE'' then REPLACE else ADD)
      | None \<Rightarrow> (case parentRefine of Some r \<Rightarrow> r | None \<Rightarrow> REPLACE))"

definition mixedJson :: tilesetJson where
  "mixedJson =
     \<lparr>asset = Some \<lparr>version = ''1.0'', tilesetVersion = None\<rparr>,
      rootHeader = TileHeader (Some ''ADD'')
        (Some [TileHeader None None, TileHeader (Some ''REPLACE'') (Some [])])\<rparr>"

text \<open>A tileset JSON of three tiles that are all additive, one of them by inheritance.\<close>

definition additiveJson :: tilesetJson where
  "additiveJson =
     \<lparr>asset = Some \<lparr>version = ''1.0'', tilesetVersion = Some ''7''\<rparr>,
      rootHeader = TileHeader (Some ''ADD'')
        (Some [TileHeader None None, TileHeader (Some ''ADD'') (Some [])])\<rparr>"


chapter \<open>Properties\<close>

section \<open>isDataUri\<close>

lemma of_char_canonicalize:
  "(of_char (canonicalize ic ch) :: nat) =
     (if ic \<and> 97 \<le> (of_char ch :: nat) \<and> (of_char ch :: nat) \<le> 122
      then of_char ch - 32 else of_char ch)"
  by (auto simp add: canonicalize_def)

lemma canonicalize_eq_iff:
  "canonicalize ic a = canonicalize ic b \<longleftrightarrow>
   (of_char (canonicalize ic a) :: nat) = of_char (canonicalize ic b)"
  by simp

lemma char_eq_code: "c = d \<longleftrightarrow> (of_char c :: nat) = of_char d"
  by simp

lemma canon_d:
  "canonicalize True c = canonicalize True CHR ''d'' \<longleftrightarrow> c = CHR ''d'' \<or> c = CHR ''D''"
  unfolding canonicalize_eq_iff of_char_canonicalize char_eq_code[of c]
  by (simp; arith)

lemma canon_a:
  "canonicalize True c = canonicalize True CHR ''a'' \<longleftrightarrow> c = CHR ''a'' \<or> c = CHR ''A''"
  unfolding canonicalize_eq_iff of_char_canonicalize char_eq_code[of c]
  by (simp; arith)

lemma canon_t:
  "canonicalize True c = canonicalize True CHR ''t'' \<longleftrightarrow> c = CHR ''t'' \<or> c = CHR ''T''"
  unfolding canonicalize_eq_iff of_char_canonicalize char_eq_code[of c]
  by (simp; arith)

lemma canon_colon:
  "canonicalize True c = canonicalize True CHR '':'' \<longleftrightarrow> c = CHR '':''"
  unfolding canonicalize_eq_iff of_char_canonicalize char_eq_code[of c]
  by (simp; arith)

text \<open>An anchored pattern can match at index 0 only, whatever start index is tried.\<close>

lemma test_anchored:
  "regexp_test \<lparr>pattern = AssertStart # ps, ignoreCase = ic\<rparr> s = matchAt ic ps s 0"
  by (auto simp: regexp_test_def list_ex_iff)

text \<open>
  Claim C10. For every string, \<open>isDataUri\<close> is true exactly when the string begins
  with the five characters \<open>data:\<close>, the letters compared without regard to case; it
  is false for every other string, in particular when \<open>data:\<close> stands at a later
  position only.
\<close>

theorem isDataUri_iff: "isDataUri uri = beginsWithDataColon uri"
  unfolding isDataUri_def dataUriRegex_def test_anchored beginsWithDataColon_def
  by (simp add: canon_d canon_a canon_t canon_colon split: list.splits)

theorem isDataUri_witness:
  "isDataUri ''DATA:text/plain,hi'' \<and> \<not> isDataUri ''x-data:abc''"
  using isDataUri_iff[of "''DATA:text/plain,hi''"] isDataUri_iff[of "''x-data:abc''"]
  by (simp add: beginsWithDataColon_def)

section \<open>The load pipeline\<close>

subsection \<open>filterProcessingQueue\<close>

text \<open>
  The invariant of the loop: the first \<open>i - removeCount\<close> cells hold the tiles of the
  first \<open>i\<close> cells of the original array that are still processing, in their order,
  and the cells from \<open>i\<close> on are untouched.
\<close>

lemma filterLoop_invariant:
  "length arr = len \<Longrightarrow> length orig = len \<Longrightarrow> rc \<le> i \<Longrightarrow> i \<le> len \<Longrightarrow>
   take (i - rc) arr = filter (\<lambda>t. contentState (store t) = PROCESSING) (take i orig) \<Longrightarrow>
   drop i arr = drop i orig \<Longrightarrow>
   filterLoop store len arr i rc = (arr', rc') \<Longrightarrow>
   length arr' = len \<and> rc' \<le> len \<and>
   take (len - rc') arr' = filter (\<lambda>t. contentState (store t) = PROCESSING) orig"
proof (induction store len arr i rc rule: filterLoop.induct)
  case (1 store len arr i rc)
  note step = "1.prems"(7)[unfolded filterLoop.simps[of store len arr i rc]]
  show ?case
  proof (cases "i < len")
    case False
    with "1.prems"(1-6) step show ?thesis by simp
  next
    case True
    have nth: "arr ! i = orig ! i"
    proof -
      have "hd (drop i arr) = arr ! i" using "1.prems"(1) True by (simp add: hd_drop_conv_nth)
      moreover have "hd (drop i orig) = orig ! i" using "1.prems"(2) True by (simp add: hd_drop_conv_nth)
      ultimately show ?thesis using "1.prems"(6) by simp
    qed
    have dropS: "drop (Suc i) arr = drop (Suc i) orig"
      using "1.prems"(6) by (metis drop_Suc tl_drop)
    have takeS: "take (Suc i) orig = take i orig @ [orig ! i]"
      using True "1.prems" by (simp add: take_Suc_conv_app_nth)
    show ?thesis
    proof (cases "contentState (store (arr ! i)) \<noteq> PROCESSING")
      case True
      note left = this
      have "filterLoop store len arr (Suc i) (Suc rc) = (arr', rc')"
        using step \<open>i < len\<close> left by (simp add: Let_def)
      moreover have "take (Suc i - Suc rc) arr =
          filter (\<lambda>t. contentState (store t) = PROCESSING) (take (Suc i) orig)"
        using "1.prems"(5) left nth takeS by simp
      ultimately show ?thesis
        using "1.IH"(1)[OF \<open>i < len\<close> refl left] "1.prems" \<open>i < len\<close> dropS by simp
    next
      case False
      note stays = this
      show ?thesis
      proof (cases "rc > 0")
        case True
        let ?arr = "arr[i - rc := arr ! i]"
        have run: "filterLoop store len ?arr (Suc i) rc = (arr', rc')"
          using step \<open>i < len\<close> stays True by (simp add: Let_def)
        have lt: "i - rc < length arr" using "1.prems" \<open>i < len\<close> by simp
        have "take (Suc i - rc) ?arr = take (i - rc) arr @ [arr ! i]"
          using lt "1.prems"(3) by (simp add: Suc_diff_le take_Suc_conv_app_nth)
        then have tk: "take (Suc i - rc) ?arr =
            filter (\<lambda>t. contentState (store t) = PROCESSING) (take (Suc i) orig)"
          using "1.prems"(5) stays nth takeS by simp
        have dr: "drop (Suc i) ?arr = drop (Suc i) orig"
          using dropS True by simp
        show ?thesis
          using "1.IH"(2)[OF \<open>i < len\<close> refl stays True _ _ _ _ tk dr run] "1.prems" \<open>i < len\<close>
          by simp
      next
        case False
        then have rc0: "rc = 0" by simp
        have run: "filterLoop store len arr (Suc i) rc = (arr', rc')"
          using step \<open>i < len\<close> stays False by (simp add: Let_def)
        have "take (Suc i) arr = take i arr @ [arr ! i]"
          using "1.prems" \<open>i < len\<close> by (simp add: take_Suc_conv_app_nth)
        then have tk: "take (Suc i - rc) arr =
            filter (\<lambda>t. contentState (store t) = PROCESSING) (take (Suc i) orig)"
          using "1.prems"(5) stays nth takeS rc0 by simp
        show ?thesis
          using "1.IH"(3)[OF \<open>i < len\<close> refl stays False _ _ _ _ tk dropS run] "1.prems" \<open>i < len\<close>
          by simp
      qed
    qed
  qed
qed

lemma filterProcessingQueue_compacts:
  "filterProcessingQueue ts =
     ts\<lparr>processingQueue := filter (\<lambda>t. contentState (tiles ts t) = PROCESSING) (processingQueue ts)\<rparr>"
proof -
  obtain arr' rc' where run:
    "filterLoop (tiles ts) (length (processingQueue ts)) (processingQueue ts) 0 0 = (arr', rc')"
    by (cases "filterLoop (tiles ts) (length (processingQueue ts)) (processingQueue ts) 0 0")
  from filterLoop_invariant[where orig = "processingQueue ts", OF refl refl _ _ _ _ run]
  have "length arr' = length (processingQueue ts) \<and> rc' \<le> length (processingQueue ts) \<and>
     take (length (processingQueue ts) - rc') arr' =
       filter (\<lambda>t. contentState (tiles ts t) = PROCESSING) (processingQueue ts)"
    by simp
  then show ?thesis
    using run by (simp add: filterProcessingQueue_def Let_def)
qed

text \<open>
  Claim C4. For every processing queue, \<open>filterProcessingQueue\<close> leaves the queue
  equal to the sub-sequence of its elements whose content state is \<open>PROCESSING\<close>, in
  their order: the in-place compaction is the plain filter of the queue, and no other
  field of the tileset changes.
\<close>

theorem filterProcessingQueue_filter:
  "processingQueue (filterProcessingQueue ts) =
     filter (\<lambda>t. contentState (tiles ts t) = PROCESSING) (processingQueue ts) \<and>
   filterProcessingQueue ts = ts\<lparr>processingQueue := processingQueue (filterProcessingQueue ts)\<rparr>"
proof -
  have "filterProcessingQueue ts =
      ts\<lparr>processingQueue := filter (\<lambda>t. contentState (tiles ts t) = PROCESSING) (processingQueue ts)\<rparr>"
    by (rule filterProcessingQueue_compacts)
  then show ?thesis by simp
qed

theorem filterProcessingQueue_witness:
  "processingQueue (filterProcessingQueue
      (newTileset\<lparr>tiles := (\<lambda>_. blankTile)(1 := blankTile\<lparr>contentState := PROCESSING\<rparr>,
                                             3 := blankTile\<lparr>contentState := PROCESSING\<rparr>),
                  processingQueue := [0, 1, 2, 3, 1]\<rparr>)) = [1, 3, 1]"
  using filterProcessingQueue_filter[of
      "newTileset\<lparr>tiles := (\<lambda>_. blankTile)(1 := blankTile\<lparr>contentState := PROCESSING\<rparr>,
                                              3 := blankTile\<lparr>contentState := PROCESSING\<rparr>),
                   processingQueue := [0, 1, 2, 3, 1]\<rparr>"]
  by (simp add: newTileset_def blankTile_def)

section \<open>Requests, completions and the frame update\<close>

subsection \<open>Requests are issued in priority order\<close>

lemma sorted_map_subseq:
  "subseq xs ys \<Longrightarrow> sorted (map f ys) \<Longrightarrow> sorted (map (f :: 'a \<Rightarrow> real) xs)"
proof (induction rule: list_emb.induct)
  case (list_emb_Nil ys)
  then show ?case by simp
next
  case (list_emb_Cons xs ys y)
  then show ?case by simp
next
  case (list_emb_Cons2 x y xs ys)
  then have "set xs \<subseteq> set ys" by (meson subseq_order.order_trans subseq_singleton_left subsetI)
  with list_emb_Cons2 show ?case by auto
qed

lemma set_insertSorted: "set (insertSorted cmp x ys) = insert x (set ys)"
  by (induction ys) auto

lemma mset_insertSorted: "mset (insertSorted cmp x ys) = add_mset x (mset ys)"
  by (induction ys) auto

lemma sorted_insertSorted:
  "sorted (map f ys) \<Longrightarrow> (\<And>a b. cmp a b = f a - f b) \<Longrightarrow> sorted (map f (insertSorted cmp x ys))"
  by (induction ys) (auto simp: set_insertSorted)

lemma mset_array_sort: "mset (array_sort cmp xs) = mset xs"
  by (induction xs) (auto simp: array_sort_def mset_insertSorted)

lemma sorted_array_sort:
  "sorted (map (\<lambda>t. priority (store t)) (array_sort (sortRequestByPriority store) xs))"
proof (induction xs)
  case Nil
  then show ?case by (simp add: array_sort_def)
next
  case (Cons x xs)
  have "array_sort (sortRequestByPriority store) (x # xs) =
     insertSorted (sortRequestByPriority store) x (array_sort (sortRequestByPriority store) xs)"
    by (simp add: array_sort_def)
  moreover have "sorted (map (\<lambda>t. priority (store t))
      (insertSorted (sortRequestByPriority store) x (array_sort (sortRequestByPriority store) xs)))"
    by (rule sorted_insertSorted[OF Cons]) (simp add: sortRequestByPriority_def)
  ultimately show ?case by simp
qed

lemma requestContent_requestedTiles [simp]:
  "requestedTiles (requestContent grant ts t) = requestedTiles ts"
  by (simp add: requestContent_def tile_requestContent_def Let_def)

lemma requestContent_priority [simp]:
  "priority (tiles (requestContent grant ts t) u) = priority (tiles ts u)"
  by (simp add: requestContent_def tile_requestContent_def Let_def)

lemma requestContent_fetches:
  "fetches (requestContent grant ts t) = fetches ts \<or>
   fetches (requestContent grant ts t) = fetches ts @ [t]"
  by (simp add: requestContent_def tile_requestContent_def Let_def)

lemma requestLoop_foldl:
  "len \<le> length (requestedTiles ts) \<Longrightarrow>
   requestLoop grant ts i len = foldl (requestContent grant) ts (drop i (take len (requestedTiles ts)))"
proof (induction grant ts i len rule: requestLoop.induct)
  case (1 grant ts i len)
  show ?case
  proof (cases "i < len")
    case True
    then have "drop i (take len (requestedTiles ts)) =
        requestedTiles ts ! i # drop (Suc i) (take len (requestedTiles ts))"
      using "1.prems" by (metis Cons_nth_drop_Suc length_take min.absorb2 nth_take)
    then show ?thesis
      using "1.IH"[OF True] "1.prems" True
      by (simp add: requestLoop.simps[of grant ts i len])
  next
    case False
    then show ?thesis by (simp add: requestLoop.simps[of grant ts i len])
  qed
qed

lemma foldl_requestContent_requestedTiles [simp]:
  "requestedTiles (foldl (requestContent grant) ts xs) = requestedTiles ts"
  by (induction xs arbitrary: ts) auto

lemma foldl_requestContent_priority [simp]:
  "priority (tiles (foldl (requestContent grant) ts xs) u) = priority (tiles ts u)"
  by (induction xs arbitrary: ts) auto

lemma foldl_requestContent_fetches:
  "\<exists>issued. fetches (foldl (requestContent grant) ts xs) = fetches ts @ issued \<and> subseq issued xs"
proof (induction xs arbitrary: ts)
  case Nil
  then show ?case by simp
next
  case (Cons x xs)
  obtain issued where i: "fetches (foldl (requestContent grant) (requestContent grant ts x) xs) =
      fetches (requestContent grant ts x) @ issued" "subseq issued xs"
    using Cons[of "requestContent grant ts x"] by blast
  from requestContent_fetches[of grant ts x] show ?case
  proof
    assume "fetches (requestContent grant ts x) = fetches ts"
    with i show ?thesis by (intro exI[of _ issued]) (simp add: list_emb_Cons)
  next
    assume "fetches (requestContent grant ts x) = fetches ts @ [x]"
    with i show ?thesis by (intro exI[of _ "x # issued"]) simp
  qed
qed

text \<open>
  Claim C2. In every frame \<open>requestTiles\<close> first sorts the requested tiles ascending
  by priority (the sorted list is a rearrangement of the requested tiles) and only then
  calls \<open>requestContent\<close> on each element in order: the index loop is the left fold of
  \<open>requestContent\<close> over the sorted list. The requests handed to the fetch service in
  this frame are a sub-sequence of the sorted list, so they are issued in non-decreasing
  priority order.
\<close>

theorem requestTiles_sorted_first:
  "requestTiles grant ts =
     foldl (requestContent grant)
       (ts\<lparr>requestedTiles := array_sort (sortRequestByPriority (tiles ts)) (requestedTiles ts)\<rparr>)
       (array_sort (sortRequestByPriority (tiles ts)) (requestedTiles ts)) \<and>
   sorted (map (\<lambda>t. priority (tiles ts t)) (requestedTiles (requestTiles grant ts))) \<and>
   mset (requestedTiles (requestTiles grant ts)) = mset (requestedTiles ts) \<and>
   (\<exists>issued. fetches (requestTiles grant ts) = fetches ts @ issued \<and>
      subseq issued (requestedTiles (requestTiles grant ts)) \<and>
      sorted (map (\<lambda>t. priority (tiles (requestTiles grant ts) t)) issued))"
proof -
  let ?sorted = "array_sort (sortRequestByPriority (tiles ts)) (requestedTiles ts)"
  let ?ts1 = "ts\<lparr>requestedTiles := ?sorted\<rparr>"
  have len: "length ?sorted = length (requestedTiles ts)"
    by (metis mset_array_sort size_mset)
  have eq: "requestTiles grant ts = foldl (requestContent grant) ?ts1 ?sorted"
    using requestLoop_foldl[of "length (requestedTiles ts)" ?ts1 grant 0] len
    by (simp add: requestTiles_def Let_def)
  have req: "requestedTiles (requestTiles grant ts) = ?sorted"
    unfolding eq by simp
  have srt: "sorted (map (\<lambda>t. priority (tiles ts t)) ?sorted)"
    by (rule sorted_array_sort)
  obtain issued where i: "fetches (requestTiles grant ts) = fetches ts @ issued" "subseq issued ?sorted"
    using foldl_requestContent_fetches[of grant ?ts1 ?sorted] unfolding eq by auto
  have prio: "(\<lambda>t. priority (tiles (requestTiles grant ts) t)) = (\<lambda>t. priority (tiles ts t))"
    unfolding eq by simp
  have "sorted (map (\<lambda>t. priority (tiles ts t)) issued)"
    using sorted_map_subseq[OF i(2) srt] .
  with eq req srt i prio show ?thesis
    by (simp add: mset_array_sort) 
qed

theorem requestTiles_sorted_first_witness:
  "requestedTiles (requestTiles grantAll threeRequests) = [2, 4, 3, 1] \<and>
   fetches (requestTiles grantAll threeRequests) = [2, 4, 1]"
proof -
  have order: "array_sort (sortRequestByPriority (tiles threeRequests)) (requestedTiles threeRequests)
      = [2, 4, 3, 1]"
    by code_simp
  have run: "requestTiles grantAll threeRequests =
      foldl (requestContent grantAll)
        (threeRequests\<lparr>requestedTiles := [2, 4, 3, 1]\<rparr>) [2, 4, 3, 1]"
    using requestTiles_sorted_first[of grantAll threeRequests] unfolding order
    by (rule conjunct1)
  have "fetches (foldl (requestContent grantAll)
        (threeRequests\<lparr>requestedTiles := [2, 4, 3, 1]\<rparr>) [2, 4, 3, 1]) = [2, 4, 1]"
    by code_simp
  then show ?thesis
    unfolding run by simp
qed

subsection \<open>The pending-request count of a request\<close>

lemma loadCounts_counters [simp]:
  "numberOfPendingRequests (incrementLoadCounts st c) = numberOfPendingRequests st"
  "numberOfPendingRequests (decrementLoadCounts st c) = numberOfPendingRequests st"
  "numberOfTilesProcessing (incrementLoadCounts st c) = numberOfTilesProcessing st"
  "numberOfTilesProcessing (decrementLoadCounts st c) = numberOfTilesProcessing st"
  "numberOfTilesWithContentReady (incrementLoadCounts st c) = numberOfTilesWithContentReady st"
  "numberOfTilesWithContentReady (decrementLoadCounts st c) = numberOfTilesWithContentReady st"
  by (simp_all add: incrementLoadCounts_def decrementLoadCounts_def split: option.splits)


lemma indexOf_ge_minus1: "indexOf xs x \<ge> - 1"
  by (induction xs) (auto simp: Let_def)














subsection \<open>Requesting an expired tile\<close>

text \<open>
  Claim C5, as stated, fails for a tile with tileset content: the call that would
  discard the subtree is commented out in the source. After a granted request for the
  expired tile 1, whose child is tile 2, the tile still has its child.
\<close>

theorem requestContent_expired_counterexample:
  "contentExpired (tiles expiredTileset 1) \<and> hasTilesetContent (tiles expiredTileset 1) \<and>
   numberOfPendingRequests (statistics (requestContent grantAll expiredTileset 1)) = 1 \<and>
   \<not> subtreeDiscarded (requestContent grantAll expiredTileset 1) 1 \<and>
   childrenTile (tiles (requestContent grantAll expiredTileset 1) 1) = [2] \<and>
   tiles (requestContent grantAll expiredTileset 1) 2 = tiles expiredTileset 2"
  by (simp add: expiredTileset_def newTileset_def blankTile_def requestContent_def newStatistics_def
      tile_requestContent_def contentExpired_def subtreeDiscarded_def grantAll_def)

text \<open>
  Claim C5, amended. When \<open>requestContent\<close> succeeds for a tile whose content is
  expired, no tile loses a child or its content, and no tile but the requested one
  changes (the old content stays renderable, the subtree of a tile with tileset content
  stays in place). For a tile with tileset content the statistics change by the pending
  request only. For any other tile the load counts of the old content and the number of
  tiles with content ready are decremented as well; they are added back when the reload
  completes, which restores the statistics.
\<close>

theorem requestContent_expired:
  assumes "\<not> hasEmptyContent (tiles ts t)" and "grant ts t" and "contentExpired (tiles ts t)"
  shows "(\<forall>u. childrenTile (tiles (requestContent grant ts t) u) = childrenTile (tiles ts u)) \<and>
         (\<forall>u. content (tiles (requestContent grant ts t) u) = content (tiles ts u)) \<and>
         (\<forall>u. u \<noteq> t \<longrightarrow> tiles (requestContent grant ts t) u = tiles ts u) \<and>
         statistics (requestContent grant ts t) =
           (if hasTilesetContent (tiles ts t)
            then (statistics ts)\<lparr>numberOfPendingRequests := numberOfPendingRequests (statistics ts) + 1\<rparr>
            else (decrementLoadCounts (statistics ts) (content (tiles ts t)))
                   \<lparr>numberOfTilesWithContentReady := numberOfTilesWithContentReady (statistics ts) - 1,
                    numberOfPendingRequests := numberOfPendingRequests (statistics ts) + 1\<rparr>) \<and>
         (\<not> hasTilesetContent (tiles ts t) \<longrightarrow>
            statistics (handleTileSuccess (addToProcessingQueue (requestContent grant ts t) t) t) = statistics ts)"
  using assms
  by (auto simp add: requestContent_def tile_requestContent_def Let_def decrementLoadCounts_def
      incrementLoadCounts_def handleTileSuccess_def addToProcessingQueue_def split: option.splits)

theorem requestContent_expired_witness:
  "childrenTile (tiles (requestContent grantAll expiredTileset 1) 1) = [2] \<and>
   statistics (requestContent grantAll expiredTileset 1) =
     newStatistics\<lparr>numberOfPendingRequests := 1\<rparr>"
proof -
  have h: "\<not> hasEmptyContent (tiles expiredTileset 1)" "contentExpired (tiles expiredTileset 1)"
    "hasTilesetContent (tiles expiredTileset 1)" "childrenTile (tiles expiredTileset 1) = [2]"
    "statistics expiredTileset = newStatistics"
    by (simp_all add: expiredTileset_def newTileset_def blankTile_def contentExpired_def)
  have "numberOfPendingRequests newStatistics = 0"
    by (simp add: newStatistics_def)
  then show ?thesis
    using requestContent_expired[where grant = grantAll and ts = expiredTileset and t = 1,
        OF h(1) _ h(2)] h(3-5)
    by (simp add: grantAll_def)
qed

subsection \<open>The frame update and the resident cache\<close>

lemma nothingEvicted_refl [simp]: "nothingEvicted ts ts"
  by (simp add: nothingEvicted_def)

lemma nothingEvicted_trans:
  "nothingEvicted a b \<Longrightarrow> nothingEvicted b c \<Longrightarrow> nothingEvicted a c"
  by (auto simp: nothingEvicted_def intro: prefix_order.trans)

lemma cache_add_prefix: "prefix (entries c) (entries (cache_add c t))"
  by (simp add: cache_add_def)

lemma requestContent_nothingEvicted: "nothingEvicted ts (requestContent grant ts t)"
  by (simp add: nothingEvicted_def requestContent_def tile_requestContent_def Let_def)

lemma contentReady_nothingEvicted: "nothingEvicted ts (contentReady ts t)"
  by (simp add: nothingEvicted_def contentReady_def handleTileSuccess_def tile_setContentState_def
      Let_def cache_add_prefix)

lemma contentFailed_nothingEvicted: "nothingEvicted ts (contentFailed ts t m)"
  by (simp add: nothingEvicted_def contentFailed_def handleTileFailure_def tile_setContentState_def
      Let_def)

lemma tile_process_nothingEvicted: "nothingEvicted ts (tile_process advance ts t)"
  by (simp add: tile_process_def contentReady_nothingEvicted contentFailed_nothingEvicted
      split: processing.splits)

lemma filterProcessingQueue_nothingEvicted: "nothingEvicted ts (filterProcessingQueue ts)"
  by (simp add: filterProcessingQueue_compacts nothingEvicted_def)

lemma requestLoop_nothingEvicted: "nothingEvicted ts (requestLoop grant ts i len)"
proof (induction grant ts i len rule: requestLoop.induct)
  case (1 grant ts i len)
  show ?case
  proof (cases "i < len")
    case True
    then show ?thesis
      using "1.IH"[OF True] requestContent_nothingEvicted[of ts grant "requestedTiles ts ! i"]
      by (simp add: requestLoop.simps[of grant ts i len]) (blast intro: nothingEvicted_trans)
  next
    case False
    then show ?thesis by (simp add: requestLoop.simps[of grant ts i len])
  qed
qed

lemma processLoop_nothingEvicted: "nothingEvicted ts (processLoop advance ts i len)"
proof (induction advance ts i len rule: processLoop.induct)
  case (1 advance ts i len)
  show ?case
  proof (cases "i < len")
    case True
    then show ?thesis
      using "1.IH"[OF True] tile_process_nothingEvicted[of ts advance "processingQueue ts ! i"]
      by (simp add: processLoop.simps[of advance ts i len]) (blast intro: nothingEvicted_trans)
  next
    case False
    then show ?thesis by (simp add: processLoop.simps[of advance ts i len])
  qed
qed

lemma requestTiles_nothingEvicted: "nothingEvicted ts (requestTiles grant ts)"
proof -
  let ?ts1 = "ts\<lparr>requestedTiles := array_sort (sortRequestByPriority (tiles ts)) (requestedTiles ts)\<rparr>"
  have "nothingEvicted ts ?ts1" by (simp add: nothingEvicted_def)
  then show ?thesis
    unfolding requestTiles_def Let_def
    by (rule nothingEvicted_trans) (rule requestLoop_nothingEvicted)
qed

lemma processTiles_nothingEvicted: "nothingEvicted ts (processTiles advance ts)"
  unfolding processTiles_def Let_def
  by (rule nothingEvicted_trans[OF filterProcessingQueue_nothingEvicted processLoop_nothingEvicted])

lemma unloadTiles_stops_aux:
  "frameStart (cache ts) = fs0 \<Longrightarrow> evictionStopped (cache_unloadTiles unloadTile ts es)"
proof (induction es arbitrary: ts)
  case Nil
  then show ?case by (simp add: evictionStopped_def)
next
  case (Cons e es)
  obtain t n where e: "e = (t, n)" by (cases e)
  have fs: "frameStart (cache (unloadTile ts t)) = frameStart (cache ts)"
    by (simp add: unloadTile_def Let_def)
  show ?case
    using Cons.IH[of "unloadTile ts t"] fs Cons.prems
    by (auto simp: e evictionStopped_def totalMemoryUsageInBytes_def)
qed

lemma unloadTiles_stops: "evictionStopped (unloadTiles ts)"
  unfolding unloadTiles_def by (rule unloadTiles_stops_aux[OF refl])

text \<open>
  Claim C1, as stated, fails: in \<open>updateFixedFrame\<close> the call of \<open>unloadTiles\<close> is
  commented out. A ready, visible tileset holds one resident tile of 1000 bytes, over
  the budget of 512 bytes, whose cache entry was not touched in the current frame. After
  the frame update the entry is still cached, the content is still held, no
  tile-unloaded notification was raised and the eviction has not reached its end.
\<close>

theorem updateFixedFrame_eviction_counterexample:
  "ready overBudget \<and> visible overBudget \<and>
   \<not> evictionStopped (updateFixedFrame traverseNothing grantAll stillProcessing overBudget
        \<lparr>commandList = [], stencilBuffer = True\<rparr>) \<and>
   entries (cache (updateFixedFrame traverseNothing grantAll stillProcessing overBudget
        \<lparr>commandList = [], stencilBuffer = True\<rparr>)) = [(1, 0)] \<and>
   content (tiles (updateFixedFrame traverseNothing grantAll stillProcessing overBudget
        \<lparr>commandList = [], stencilBuffer = True\<rparr>) 1) \<noteq> None \<and>
   notifications (updateFixedFrame traverseNothing grantAll stillProcessing overBudget
        \<lparr>commandList = [], stencilBuffer = True\<rparr>) = []"
  by code_simp

text \<open>
  Claim C1, amended. A frame update of a ready, visible tileset clears the requested
  tiles, runs the traversal, then \<open>requestTiles\<close> and \<open>processTiles\<close>, and performs no
  eviction: after the traversal no cache entry is removed, no content is released and
  no tile-unloaded notification is raised, whatever the memory budget. A tileset that
  is not ready or not visible is left as it is.
\<close>

theorem updateFixedFrame_no_eviction:
  "(ready ts \<and> visible ts \<longrightarrow>
      updateFixedFrame selectTiles grant advance ts fs =
        processTiles advance (requestTiles grant (selectTiles (ts\<lparr>requestedTiles := []\<rparr>) fs)) \<and>
      nothingEvicted (selectTiles (ts\<lparr>requestedTiles := []\<rparr>) fs)
        (updateFixedFrame selectTiles grant advance ts fs)) \<and>
   (\<not> (ready ts \<and> visible ts) \<longrightarrow> updateFixedFrame selectTiles grant advance ts fs = ts)"
proof -
  have "nothingEvicted (selectTiles (ts\<lparr>requestedTiles := []\<rparr>) fs)
      (processTiles advance (requestTiles grant (selectTiles (ts\<lparr>requestedTiles := []\<rparr>) fs)))"
    by (rule nothingEvicted_trans[OF requestTiles_nothingEvicted processTiles_nothingEvicted])
  then show ?thesis
    by (simp add: updateFixedFrame_def Let_def)
qed

theorem updateFixedFrame_no_eviction_witness:
  "nothingEvicted (overBudget\<lparr>requestedTiles := []\<rparr>)
     (updateFixedFrame traverseNothing grantAll stillProcessing overBudget
        \<lparr>commandList = [], stencilBuffer = True\<rparr>) \<and>
   updateFixedFrame traverseNothing grantAll stillProcessing (overBudget\<lparr>visible := False\<rparr>)
        \<lparr>commandList = [], stencilBuffer = True\<rparr> = overBudget\<lparr>visible := False\<rparr>"
proof -
  have r: "ready overBudget \<and> visible overBudget"
    by code_simp
  have n: "\<not> (ready (overBudget\<lparr>visible := False\<rparr>) \<and> visible (overBudget\<lparr>visible := False\<rparr>))"
    by simp
  show ?thesis
    using updateFixedFrame_no_eviction[of overBudget traverseNothing grantAll
        stillProcessing "\<lparr>commandList = [], stencilBuffer = True\<rparr>"]
      updateFixedFrame_no_eviction[of "overBudget\<lparr>visible := False\<rparr>" traverseNothing grantAll
        stillProcessing "\<lparr>commandList = [], stencilBuffer = True\<rparr>"]
      r n
    unfolding traverseNothing_def
    by blast
qed

section \<open>updateTiles\<close>

lemma foldl_tile_update:
  "foldl (tile_update drawTile) (ts, fs) ids = (ts', fs') \<Longrightarrow>
   backfaceCommands ts' = backfaceCommands ts @ backfaceOf drawTile ids \<and>
   commandList fs' = commandList fs @ frontfaceOf drawTile ids"
  by (induction ids arbitrary: ts fs)
    (auto simp: tile_update_def backfaceOf_def frontfaceOf_def)

lemma foldl_updateSelected:
  "foldl (updateSelected drawTile) (ts, fs) ids = (ts', fs') \<Longrightarrow>
   backfaceCommands ts' = backfaceCommands ts @ backfaceOf drawTile ids \<and>
   commandList fs' = commandList fs @ frontfaceOf drawTile ids"
  by (induction ids arbitrary: ts fs)
    (auto simp: updateSelected_def tile_update_def backfaceOf_def frontfaceOf_def Let_def)

lemma length_copyToBack [simp]: "length (copyToBack cl lb bl n) = length cl"
  by (induction n arbitrary: cl) auto

lemma nth_copyToBack:
  "lb + bl + n \<le> length cl \<Longrightarrow> k < length cl \<Longrightarrow>
   copyToBack cl lb bl n ! k = (if lb + bl \<le> k \<and> k < lb + bl + n then cl ! (k - bl) else cl ! k)"
proof (induction n arbitrary: cl)
  case 0
  then show ?case by auto
next
  case (Suc n)
  let ?cl = "cl[lb + bl + n := cl ! (lb + n)]"
  have "copyToBack ?cl lb bl n ! k =
      (if lb + bl \<le> k \<and> k < lb + bl + n then ?cl ! (k - bl) else ?cl ! k)"
    using Suc.prems by (intro Suc.IH) auto
  then show ?case
    using Suc.prems by (auto simp: nth_list_update)
qed

lemma length_moveToFront [simp]: "length (moveToFront cl lb backface i bl) = length cl"
  by (induction cl lb backface i bl rule: moveToFront.induct)
    (simp add: moveToFront.simps[of _ _ _ _ _])

lemma nth_moveToFront:
  "k < length cl \<Longrightarrow>
   moveToFront cl lb backface i bl ! k =
     (if lb + i \<le> k \<and> k < lb + bl then backface ! (k - lb) else cl ! k)"
proof (induction cl lb backface i bl rule: moveToFront.induct)
  case (1 cl lb backface i bl)
  show ?case
  proof (cases "i < bl")
    case True
    have step: "moveToFront (cl[lb + i := backface ! i]) lb backface (Suc i) bl ! k =
        (if lb + Suc i \<le> k \<and> k < lb + bl then backface ! (k - lb)
         else (cl[lb + i := backface ! i]) ! k)"
      using "1.prems" by (intro "1.IH"[OF True]) simp
    show ?thesis
    proof (cases "k = lb + i")
      case here: True
      then show ?thesis
        using step True "1.prems"
        by (simp add: moveToFront.simps[of cl lb backface i bl])
    next
      case False
      then show ?thesis
        using step True "1.prems"
        by (auto simp: moveToFront.simps[of cl lb backface i bl] nth_list_update)
    qed
  next
    case False
    then show ?thesis by (auto simp: moveToFront.simps[of cl lb backface i bl])
  qed
qed

lemma rearranged:
  assumes "length added = n" and "length backface = bl" and "length before = lb"
  shows "moveToFront (copyToBack ((before @ added) @ replicate bl Undefined) lb bl n) lb backface 0 bl
         = before @ backface @ added"
proof (rule nth_equalityI)
  show "length (moveToFront (copyToBack ((before @ added) @ replicate bl Undefined) lb bl n)
          lb backface 0 bl) = length (before @ backface @ added)"
    using assms by simp
next
  fix k
  assume "k < length (moveToFront (copyToBack ((before @ added) @ replicate bl Undefined) lb bl n)
          lb backface 0 bl)"
  then have k: "k < lb + n + bl" using assms by simp
  let ?cl = "(before @ added) @ replicate bl Undefined"
  have len: "length ?cl = lb + n + bl" using assms by simp
  have c: "copyToBack ?cl lb bl n ! k =
      (if lb + bl \<le> k \<and> k < lb + bl + n then ?cl ! (k - bl) else ?cl ! k)"
    using k len by (intro nth_copyToBack) auto
  have m: "moveToFront (copyToBack ?cl lb bl n) lb backface 0 bl ! k =
      (if lb + 0 \<le> k \<and> k < lb + bl then backface ! (k - lb) else copyToBack ?cl lb bl n ! k)"
    using k len by (intro nth_moveToFront) simp
  show "moveToFront (copyToBack ?cl lb bl n) lb backface 0 bl ! k = (before @ backface @ added) ! k"
  proof (cases "k < lb")
    case True
    then show ?thesis using m c assms by (simp add: nth_append)
  next
    case False
    note ge = this
    show ?thesis
    proof (cases "k < lb + bl")
      case True
      then have "k - lb < bl" using ge by arith
      then show ?thesis using m ge True assms by (simp add: nth_append)
    next
      case False
      then have far: "\<not> k - lb < bl" using ge by arith
      have "(before @ backface @ added) ! k = added ! (k - lb - bl)"
        using ge far assms by (simp add: nth_append)
      moreover have "?cl ! (k - bl) = added ! (k - bl - lb)"
        using False ge k assms by (auto simp: nth_append)
      ultimately show ?thesis
        using m c False ge k by (simp add: add.commute)
    qed
  qed
qed

text \<open>
  Claim C6. When the bivariate visibility test is active (skip-LOD enabled, mixed
  content, a stencil buffer, at least one selected tile), \<open>updateTiles\<close> leaves the
  command list of the frame as: the commands it held before, the stencil clear command,
  all backface commands, and then the commands the tile updates added, in their
  original order.
\<close>

theorem updateTiles_command_order:
  assumes "skipLevelOfDetail ts" and "hasMixedContent ts" and "stencilBuffer fs"
    and "selectedTiles ts \<noteq> []"
  shows "commandList (snd (updateTiles drawTile ts fs)) =
           commandList fs @ [stencilClearCommand]
             @ backfaceOf drawTile (selectedTiles ts @ emptyTiles ts)
             @ frontfaceOf drawTile (selectedTiles ts @ emptyTiles ts)"
proof -
  let ?fs1 = "fs\<lparr>commandList := commandList fs @ [stencilClearCommand]\<rparr>"
  let ?ts1 = "ts\<lparr>backfaceCommands := []\<rparr>"
  obtain ts2 fs2 where s2: "foldl (updateSelected drawTile) (?ts1, ?fs1) (selectedTiles ts) = (ts2, fs2)"
    by (cases "foldl (updateSelected drawTile) (?ts1, ?fs1) (selectedTiles ts)")
  obtain ts3 fs3 where s3: "foldl (tile_update drawTile) (ts2, fs2) (emptyTiles ts) = (ts3, fs3)"
    by (cases "foldl (tile_update drawTile) (ts2, fs2) (emptyTiles ts)")
  let ?before = "commandList fs @ [stencilClearCommand]"
  let ?added = "frontfaceOf drawTile (selectedTiles ts @ emptyTiles ts)"
  let ?backfaces = "backfaceOf drawTile (selectedTiles ts @ emptyTiles ts)"
  have b3: "backfaceCommands ts3 = ?backfaces" and c3: "commandList fs3 = ?before @ ?added"
    using foldl_updateSelected[OF s2] foldl_tile_update[OF s3]
    by (simp_all add: backfaceOf_def frontfaceOf_def)
  have "moveToFront (copyToBack ((?before @ ?added) @ replicate (length ?backfaces) Undefined)
          (length ?before) (length ?backfaces) (length ?added)) (length ?before) ?backfaces 0 (length ?backfaces)
        = ?before @ ?backfaces @ ?added"
    by (rule rearranged) simp_all
  then show ?thesis
    using assms s2 s3 b3 c3
    by (simp add: updateTiles_def Let_def)
qed

theorem updateTiles_command_order_witness:
  "commandList (snd (updateTiles
      (\<lambda>t. ([DrawCommand t], if t = 1 then [DrawCommand 10] else []))
      (newTileset\<lparr>hasMixedContent := True, selectedTiles := [1, 2], emptyTiles := [3]\<rparr>)
      \<lparr>commandList = [DrawCommand 0], stencilBuffer = True\<rparr>)) =
   [DrawCommand 0, ClearCommand 0 4, DrawCommand 10, DrawCommand 1, DrawCommand 2, DrawCommand 3]"
proof -
  have h: "skipLevelOfDetail (newTileset\<lparr>hasMixedContent := True, selectedTiles := [1, 2], emptyTiles := [3]\<rparr>)"
    by (simp add: newTileset_def)
  show ?thesis
    using updateTiles_command_order[of
        "newTileset\<lparr>hasMixedContent := True, selectedTiles := [1, 2], emptyTiles := [3]\<rparr>"
        "\<lparr>commandList = [DrawCommand 0], stencilBuffer = True\<rparr>"
        "\<lambda>t. ([DrawCommand t], if t = 1 then [DrawCommand 10] else [])", OF h]
    by (simp add: backfaceOf_def frontfaceOf_def stencilClearCommand_def)
qed

section \<open>Configuration setters\<close>

text \<open>
  Claim C7. For every value below 0, assigning it to \<open>maximumScreenSpaceError\<close> or to
  \<open>maximumMemoryUsage\<close> fails with a precondition-style error and leaves the tileset,
  and so the stored value, unchanged; for every value of at least 0 the assignment
  stores exactly that value and changes nothing else.
\<close>

theorem setters_reject_negative:
  "(v < 0 \<longrightarrow>
      set_maximumScreenSpaceError ts v = (Some (DeveloperError ''maximumScreenSpaceError''), ts) \<and>
      set_maximumMemoryUsage ts v = (Some (DeveloperError ''value''), ts)) \<and>
   (0 \<le> v \<longrightarrow>
      set_maximumScreenSpaceError ts v = (None, ts\<lparr>maximumScreenSpaceError := v\<rparr>) \<and>
      set_maximumMemoryUsage ts v = (None, ts\<lparr>maximumMemoryUsage := v\<rparr>))"
  by (simp add: set_maximumScreenSpaceError_def set_maximumMemoryUsage_def
      Check_typeOf_number_greaterThanOrEquals_def)

theorem setters_reject_negative_witness:
  "set_maximumScreenSpaceError newTileset (- 1) = (Some (DeveloperError ''maximumScreenSpaceError''), newTileset) \<and>
   maximumMemoryUsage (snd (set_maximumMemoryUsage newTileset 0)) = 0 \<and>
   maximumScreenSpaceError (snd (set_maximumScreenSpaceError newTileset (5 / 2))) = 5 / 2"
  using setters_reject_negative[of "- 1" newTileset] setters_reject_negative[of 0 newTileset]
    setters_reject_negative[of "5 / 2" newTileset]
  by simp

section \<open>updateDynamicScreenSpaceError\<close>




section \<open>loadTileset\<close>

lemma addChildren_headers:
  "map snd (snd (addChildren refineOf ts t stack cs)) = map snd stack @ cs"
  by (induction cs arbitrary: ts stack) (auto split: prod.splits)

lemma stackTiles_last:
  "stack \<noteq> [] \<Longrightarrow> last stack = (t, h) \<Longrightarrow>
   stackTiles stack = stackTiles (butlast stack) + countTiles h"
proof -
  assume "stack \<noteq> []" and l: "last stack = (t, h)"
  then have "stack = butlast stack @ [(t, h)]"
    by (metis append_butlast_last_id)
  then have "stackTiles stack = stackTiles (butlast stack @ [(t, h)])"
    by simp
  then show ?thesis by (simp add: stackTiles_def)
qed

lemma stackTiles_addChildren:
  "stackTiles (snd (addChildren refineOf ts t stack cs)) = stackTiles stack + sum_list (map countTiles cs)"
  by (simp add: stackTiles_def addChildren_headers)

lemma visit_decreases:
  "stack \<noteq> [] \<Longrightarrow> stackTiles (snd (visit refineOf ts stack)) < stackTiles stack"
proof -
  assume ne: "stack \<noteq> []"
  obtain t h where l: "last stack = (t, h)" by (cases "last stack")
  obtain r cs where h: "h = TileHeader r cs" by (cases h)
  note split = stackTiles_last[OF ne l]
  show ?thesis
  proof (cases cs)
    case None
    then show ?thesis using l h split by (simp add: visit_def Let_def)
  next
    case (Some l')
    then show ?thesis using l h split by (simp add: visit_def Let_def stackTiles_addChildren)
  qed
qed

termination loadLoop
  by (relation "measure (\<lambda>(refineOf, ts, stack). stackTiles stack)")
    (auto simp: visit_decreases case_prod_beta)

declare loadLoop.simps [simp del]

lemma newTile_facts:
  "newTile refineOf ts h parent = (t, ts') \<Longrightarrow>
   t = nextTile ts \<and> nextTile ts' = Suc (nextTile ts) \<and>
   allTilesAdditive ts' = allTilesAdditive ts \<and>
   (\<forall>u. u \<noteq> nextTile ts \<longrightarrow> refine (tiles ts' u) = refine (tiles ts u))"
  by (auto simp: newTile_def Let_def)

lemma linkChild_facts:
  "nextTile (linkChild ts p c) = nextTile ts \<and>
   allTilesAdditive (linkChild ts p c) = allTilesAdditive ts \<and>
   (\<forall>u. refine (tiles (linkChild ts p c) u) = refine (tiles ts u))"
  by (simp add: linkChild_def Let_def)

lemma addChildren_facts:
  "addChildren refineOf ts t stack cs = (ts', stack') \<Longrightarrow>
   nextTile ts' = nextTile ts + length cs \<and>
   length stack' = length stack + length cs \<and>
   fst ` set stack' = fst ` set stack \<union> {nextTile ts ..< nextTile ts'} \<and>
   allTilesAdditive ts' = allTilesAdditive ts \<and>
   (\<forall>u < nextTile ts. refine (tiles ts' u) = refine (tiles ts u))"
proof (induction cs arbitrary: ts stack)
  case Nil
  then show ?case by auto
next
  case (Cons c cs)
  obtain k ts1 where n: "newTile refineOf ts c (Some t) = (k, ts1)"
    by (cases "newTile refineOf ts c (Some t)")
  let ?ts2 = "linkChild ts1 t k"
  have run: "addChildren refineOf ?ts2 t (stack @ [(k, c)]) cs = (ts', stack')"
    using Cons.prems n by simp
  note ih = Cons.IH[OF run]
  note nf = newTile_facts[OF n]
  note lf = linkChild_facts[of ts1 t k]
  have next2: "nextTile ?ts2 = Suc (nextTile ts)" using nf lf by simp
  have "fst ` set stack' = fst ` set stack \<union> {nextTile ts ..< nextTile ts'}"
  proof -
    have "fst ` set stack' = fst ` set (stack @ [(k, c)]) \<union> {Suc (nextTile ts) ..< nextTile ts'}"
      using ih next2 by simp
    moreover have "nextTile ts' = Suc (nextTile ts) + length cs" using ih next2 by simp
    ultimately show ?thesis using nf by auto
  qed
  moreover have "\<forall>u < nextTile ts. refine (tiles ts' u) = refine (tiles ts u)"
    using ih next2 nf lf by auto
  ultimately show ?case using ih next2 nf lf by simp
qed

lemma visit_facts:
  assumes "stack \<noteq> []" and "last stack = (t, h)" and "visit refineOf ts stack = (ts', stack')"
  shows "nextTile ts \<le> nextTile ts'"
    and "fst ` set stack' = fst ` set (butlast stack) \<union> {nextTile ts ..< nextTile ts'}"
    and "allTilesAdditive ts' = (allTilesAdditive ts \<and> refine (tiles ts t) = ADD)"
    and "\<forall>u < nextTile ts. refine (tiles ts' u) = refine (tiles ts u)"
    and "nextTile ts' + length stack + stackTiles stack' = nextTile ts + length stack' + stackTiles stack"
proof -
  obtain r cs where h: "h = TileHeader r cs" by (cases h)
  note split = stackTiles_last[OF assms(1,2)]
  have len: "length stack = Suc (length (butlast stack))" using assms(1) by simp
  let ?ts2 = "ts\<lparr>statistics := (statistics ts)\<lparr>numberOfTilesTotal := numberOfTilesTotal (statistics ts) + 1\<rparr>,
                 allTilesAdditive := (allTilesAdditive ts \<and> refine (tiles ts t) = ADD)\<rparr>"
  have n2: "nextTile ?ts2 = nextTile ts" by simp
  have a2: "allTilesAdditive ?ts2 = (allTilesAdditive ts \<and> refine (tiles ts t) = ADD)" by simp
  have r2: "refine (tiles ?ts2 u) = refine (tiles ts u)" for u by simp
  have all: "nextTile ts \<le> nextTile ts' \<and>
      fst ` set stack' = fst ` set (butlast stack) \<union> {nextTile ts ..< nextTile ts'} \<and>
      allTilesAdditive ts' = (allTilesAdditive ts \<and> refine (tiles ts t) = ADD) \<and>
      (\<forall>u < nextTile ts. refine (tiles ts' u) = refine (tiles ts u)) \<and>
      nextTile ts' + length stack + stackTiles stack' = nextTile ts + length stack' + stackTiles stack"
  proof (cases cs)
    case None
    then have e: "ts' = ?ts2" "stack' = butlast stack"
      using assms h by (simp_all add: visit_def Let_def)
    have ch: "countTiles h = 1" using h None by simp
    have c1: "nextTile ts \<le> nextTile ts'" unfolding e by simp
    have c2: "fst ` set stack' = fst ` set (butlast stack) \<union> {nextTile ts ..< nextTile ts'}"
      unfolding e by simp
    have c3: "allTilesAdditive ts' = (allTilesAdditive ts \<and> refine (tiles ts t) = ADD)"
      unfolding e by simp
    have c4: "\<forall>u < nextTile ts. refine (tiles ts' u) = refine (tiles ts u)"
      unfolding e by simp
    have "nextTile ts' = nextTile ts" unfolding e by simp
    then have c5: "nextTile ts' + length stack + stackTiles stack'
           = nextTile ts + length stack' + stackTiles stack"
      unfolding e(2) using split len ch by linarith
    show ?thesis by (intro conjI c1 c2 c3 c4 c5)
  next
    case (Some l)
    then have run: "addChildren refineOf ?ts2 t (butlast stack) l = (ts', stack')"
      using assms h by (simp add: visit_def Let_def)
    note af = addChildren_facts[OF run, unfolded n2 a2 r2]
    note f1 = af[THEN conjunct1]
    note f2 = af[THEN conjunct2, THEN conjunct1]
    note f3 = af[THEN conjunct2, THEN conjunct2, THEN conjunct1]
    note f4 = af[THEN conjunct2, THEN conjunct2, THEN conjunct2, THEN conjunct1]
    note f5 = af[THEN conjunct2, THEN conjunct2, THEN conjunct2, THEN conjunct2]
    have sum: "stackTiles stack' = stackTiles (butlast stack) + sum_list (map countTiles l)"
      using stackTiles_addChildren[of refineOf ?ts2 t "butlast stack" l] run by simp
    have c1: "nextTile ts \<le> nextTile ts'" using f1 by simp
    have ch: "countTiles h = Suc (sum_list (map countTiles l))"
      using h Some by simp
    have c5: "nextTile ts' + length stack + stackTiles stack'
           = nextTile ts + length stack' + stackTiles stack"
      using f1 f2 sum split len ch by linarith
    show ?thesis by (intro conjI c1 f3 f4 f5 c5)
  qed
  show "nextTile ts \<le> nextTile ts'"
    and "fst ` set stack' = fst ` set (butlast stack) \<union> {nextTile ts ..< nextTile ts'}"
    and "allTilesAdditive ts' = (allTilesAdditive ts \<and> refine (tiles ts t) = ADD)"
    and "\<forall>u < nextTile ts. refine (tiles ts' u) = refine (tiles ts u)"
    and "nextTile ts' + length stack + stackTiles stack' = nextTile ts + length stack' + stackTiles stack"
    using all by blast+
qed

lemma loadLoop_Nil: "loadLoop refineOf ts [] = ts"
  by (simp add: loadLoop.simps[of refineOf ts "[]"])

lemma loadLoop_facts:
  "\<forall>u \<in> fst ` set stack. u < nextTile ts \<Longrightarrow>
   nextTile ts \<le> nextTile (loadLoop refineOf ts stack) \<and>
   (\<forall>u < nextTile ts. refine (tiles (loadLoop refineOf ts stack) u) = refine (tiles ts u)) \<and>
   allTilesAdditive (loadLoop refineOf ts stack) =
     (allTilesAdditive ts \<and>
      (\<forall>u \<in> fst ` set stack \<union> {nextTile ts ..< nextTile (loadLoop refineOf ts stack)}.
         refine (tiles (loadLoop refineOf ts stack) u) = ADD)) \<and>
   nextTile (loadLoop refineOf ts stack) + length stack = nextTile ts + stackTiles stack"
proof (induction refineOf ts stack rule: loadLoop.induct)
  case (1 refineOf ts stack)
  show ?case
  proof (cases "stack = []")
    case True
    then show ?thesis by (simp add: loadLoop_Nil stackTiles_def)
  next
    case False
    obtain t h where l: "last stack = (t, h)" by (cases "last stack")
    obtain ts1 stack1 where v: "visit refineOf ts stack = (ts1, stack1)"
      by (cases "visit refineOf ts stack")
    note vf = visit_facts[OF False l v]
    let ?r = "loadLoop refineOf ts1 stack1"
    have unfold: "loadLoop refineOf ts stack = ?r"
      using False v by (simp add: loadLoop.simps[of refineOf ts stack])
    have "stack = butlast stack @ [(t, h)]"
      using False l by (metis append_butlast_last_id)
    then have "set stack = set (butlast stack @ [(t, h)])" by simp
    then have ids: "fst ` set stack = fst ` set (butlast stack) \<union> {t}"
      by auto
    have below: "\<forall>u \<in> fst ` set stack1. u < nextTile ts1"
      using vf(1,2) "1.prems" ids by auto
    then have below': "\<forall>u \<in> fst ` set (snd (visit refineOf ts stack)).
        u < nextTile (fst (visit refineOf ts stack))"
      by (simp only: v fst_conv snd_conv)
    have pos: "length stack > 0" using False by simp
    note ih = "1.IH"[OF pos below', unfolded v fst_conv snd_conv]
    note i1 = ih[THEN conjunct1]
    note i2 = ih[THEN conjunct2, THEN conjunct1]
    note i3 = ih[THEN conjunct2, THEN conjunct2, THEN conjunct1]
    note i4 = ih[THEN conjunct2, THEN conjunct2, THEN conjunct2]
    have t_lt: "t < nextTile ts" using "1.prems" ids by simp
    have c1: "nextTile ts \<le> nextTile ?r" using i1 vf(1) by simp
    have keep: "\<forall>u < nextTile ts. refine (tiles ?r u) = refine (tiles ts u)"
      using i2 vf(1,4) by auto
    have range: "fst ` set stack1 \<union> {nextTile ts1 ..< nextTile ?r} =
        fst ` set (butlast stack) \<union> {nextTile ts ..< nextTile ?r}"
      using vf(1,2) i1 by auto
    have rt: "refine (tiles ?r t) = refine (tiles ts t)" using keep t_lt by simp
    have flag: "allTilesAdditive ?r =
        (allTilesAdditive ts \<and>
         (\<forall>u \<in> fst ` set stack \<union> {nextTile ts ..< nextTile ?r}. refine (tiles ?r u) = ADD))"
      unfolding i3 range vf(3) ids using rt by auto
    have count: "nextTile ?r + length stack = nextTile ts + stackTiles stack"
      using i4 vf(5) by linarith
    show ?thesis
      unfolding unfold by (intro conjI c1 keep flag count)
  qed
qed

text \<open>
  The tiles a call creates carry exactly the refine modes of the hierarchy it was given:
  the loop keeps, as a multiset, the modes of the tiles created so far together with
  the modes still to come equal to the modes of the hierarchy.
\<close>

lemma hierarchyRefines_unfold:
  "hierarchyRefines refineOf r h =
     r # concat (map (\<lambda>c. hierarchyRefines refineOf (refineOf c (Some r)) c)
                  (case children h of None \<Rightarrow> [] | Some cs \<Rightarrow> cs))"
  by (cases h; cases "children h") auto

lemma addChildren_created:
  "addChildren refineOf ts t stack cs = (ts', stack') \<Longrightarrow> t < nextTile ts \<Longrightarrow>
   stack' = stack @ zip [nextTile ts ..< nextTile ts + length cs] cs \<and>
   map (\<lambda>u. refine (tiles ts' u)) [nextTile ts ..< nextTile ts + length cs]
     = map (\<lambda>c. refineOf c (Some (refine (tiles ts t)))) cs"
proof (induction cs arbitrary: ts stack)
  case Nil
  then show ?case by simp
next
  case (Cons c cs)
  obtain k ts1 where n: "newTile refineOf ts c (Some t) = (k, ts1)"
    by (cases "newTile refineOf ts c (Some t)")
  let ?ts2 = "linkChild ts1 t k"
  have run: "addChildren refineOf ?ts2 t (stack @ [(k, c)]) cs = (ts', stack')"
    using Cons.prems n by simp
  have k: "k = nextTile ts" using newTile_facts[OF n] by simp
  have next2: "nextTile ?ts2 = Suc (nextTile ts)"
    using newTile_facts[OF n] linkChild_facts[of ts1 t k] by simp
  have rk: "refine (tiles ?ts2 k) = refineOf c (Some (refine (tiles ts t)))"
    using n linkChild_facts[of ts1 t k] by (auto simp: newTile_def Let_def)
  have rt: "refine (tiles ?ts2 t) = refine (tiles ts t)"
    using newTile_facts[OF n] linkChild_facts[of ts1 t k] Cons.prems(2) by simp
  have lt: "t < nextTile ?ts2" using next2 Cons.prems(2) by simp
  note ih = Cons.IH[OF run lt, unfolded next2 rt]
  note af = addChildren_facts[OF run, unfolded next2]
  have keep: "refine (tiles ts' k) = refine (tiles ?ts2 k)"
    using af k by simp
  have upt: "[nextTile ts ..< nextTile ts + length (c # cs)]
      = nextTile ts # [Suc (nextTile ts) ..< Suc (nextTile ts) + length cs]"
  proof -
    have "[nextTile ts ..< nextTile ts + Suc (length cs)]
        = nextTile ts # [Suc (nextTile ts) ..< nextTile ts + Suc (length cs)]"
      by (rule upt_conv_Cons) simp
    then show ?thesis by simp
  qed
  show ?case
    unfolding upt using ih keep rk k by simp
qed

lemma map_zip_refines:
  "length ids = length cs \<Longrightarrow> map f ids = map g cs \<Longrightarrow>
   map (\<lambda>e. F (f (fst e)) (snd e)) (zip ids cs) = map (\<lambda>c. F (g c) c) cs"
  by (induction ids cs rule: list_induct2) auto


lemma stackRefines_append:
  "stackRefines refineOf ts (xs @ ys) = stackRefines refineOf ts xs @ stackRefines refineOf ts ys"
  by (simp add: stackRefines_def)

lemma stackRefines_cong:
  "\<forall>u \<in> fst ` set stack. refine (tiles ts' u) = refine (tiles ts u) \<Longrightarrow>
   stackRefines refineOf ts' stack = stackRefines refineOf ts stack"
  unfolding stackRefines_def by (induction stack) auto

lemma visit_refines:
  assumes "stack \<noteq> []" and "last stack = (t, h)" and "visit refineOf ts stack = (ts', stack')"
    and "\<forall>u \<in> fst ` set stack. u < nextTile ts"
  shows "mset (stackRefines refineOf ts stack)
           = add_mset (refine (tiles ts t)) (mset (stackRefines refineOf ts' stack'))"
    and "mset (map (\<lambda>u. refine (tiles ts' u)) (map fst stack'))
           = mset (map (\<lambda>u. refine (tiles ts u)) (map fst (butlast stack)))
             + mset (map (\<lambda>u. refine (tiles ts' u)) [nextTile ts ..< nextTile ts'])"
proof -
  have st: "stack = butlast stack @ [(t, h)]"
    using assms(1,2) by (metis append_butlast_last_id)
  then have "set stack = set (butlast stack @ [(t, h)])" by simp
  then have ids: "fst ` set stack = fst ` set (butlast stack) \<union> {t}" by auto
  have t_lt: "t < nextTile ts" using assms(4) ids by simp
  note vf = visit_facts[OF assms(1,2,3)]
  have old: "\<forall>u \<in> fst ` set (butlast stack). refine (tiles ts' u) = refine (tiles ts u)"
    using vf(4) assms(4) ids by auto
  let ?ts2 = "ts\<lparr>statistics := (statistics ts)\<lparr>numberOfTilesTotal := numberOfTilesTotal (statistics ts) + 1\<rparr>,
                 allTilesAdditive := (allTilesAdditive ts \<and> refine (tiles ts t) = ADD)\<rparr>"
  have split: "stackRefines refineOf ts stack =
      stackRefines refineOf ts (butlast stack) @ hierarchyRefines refineOf (refine (tiles ts t)) h"
    using stackRefines_append[of refineOf ts "butlast stack" "[(t, h)]"] st
    by (simp add: stackRefines_def)
  have both: "mset (stackRefines refineOf ts stack)
           = add_mset (refine (tiles ts t)) (mset (stackRefines refineOf ts' stack')) \<and>
         mset (map (\<lambda>u. refine (tiles ts' u)) (map fst stack'))
           = mset (map (\<lambda>u. refine (tiles ts u)) (map fst (butlast stack)))
             + mset (map (\<lambda>u. refine (tiles ts' u)) [nextTile ts ..< nextTile ts'])"
  proof (cases "children h")
    case None
    then have e: "ts' = ?ts2" "stack' = butlast stack"
      using assms(2,3) by (simp_all add: visit_def Let_def)
    have h1: "hierarchyRefines refineOf (refine (tiles ts t)) h = [refine (tiles ts t)]"
      using hierarchyRefines_unfold[of refineOf "refine (tiles ts t)" h] None by simp
    have s1: "stackRefines refineOf ?ts2 (butlast stack) = stackRefines refineOf ts (butlast stack)"
      by (rule stackRefines_cong) simp
    show ?thesis
      unfolding e split h1 s1 by simp
  next
    case (Some cs)
    then have run: "addChildren refineOf ?ts2 t (butlast stack) cs = (ts', stack')"
      using assms(2,3) by (simp add: visit_def Let_def)
    have n2: "nextTile ?ts2 = nextTile ts" by simp
    have r2: "refine (tiles ?ts2 u) = refine (tiles ts u)" for u by simp
    have lt2: "t < nextTile ?ts2" using t_lt by simp
    note ac = addChildren_created[OF run lt2, unfolded n2 r2]
    note af = addChildren_facts[OF run, unfolded n2 r2]
    have n': "nextTile ts' = nextTile ts + length cs" using af by blast
    let ?ids = "[nextTile ts ..< nextTile ts + length cs]"
    have stack': "stack' = butlast stack @ zip ?ids cs" using ac by blast
    have created: "map (\<lambda>u. refine (tiles ts' u)) ?ids
        = map (\<lambda>c. refineOf c (Some (refine (tiles ts t)))) cs"
      using ac by blast
    have h1: "hierarchyRefines refineOf (refine (tiles ts t)) h =
        refine (tiles ts t) #
          concat (map (\<lambda>c. hierarchyRefines refineOf (refineOf c (Some (refine (tiles ts t)))) c) cs)"
      using hierarchyRefines_unfold[of refineOf "refine (tiles ts t)" h] Some by simp
    have s1: "stackRefines refineOf ts' (butlast stack) = stackRefines refineOf ts (butlast stack)"
      by (rule stackRefines_cong) (rule old)
    have "map (\<lambda>e. hierarchyRefines refineOf (refine (tiles ts' (fst e))) (snd e)) (zip ?ids cs)
        = map (\<lambda>c. hierarchyRefines refineOf (refineOf c (Some (refine (tiles ts t)))) c) cs"
      by (rule map_zip_refines[where f = "\<lambda>u. refine (tiles ts' u)"
            and F = "\<lambda>r c. hierarchyRefines refineOf r c", OF _ created]) simp
    then have s2: "stackRefines refineOf ts' (zip ?ids cs) =
        concat (map (\<lambda>c. hierarchyRefines refineOf (refineOf c (Some (refine (tiles ts t)))) c) cs)"
      by (simp add: stackRefines_def)
    have c1: "mset (stackRefines refineOf ts stack)
           = add_mset (refine (tiles ts t)) (mset (stackRefines refineOf ts' stack'))"
      unfolding split h1 stack' stackRefines_append s1 s2 by simp
    have m1: "map (\<lambda>u. refine (tiles ts' u)) (map fst (butlast stack))
        = map (\<lambda>u. refine (tiles ts u)) (map fst (butlast stack))"
      using old by simp
    have fs: "map fst stack' = map fst (butlast stack) @ ?ids"
      unfolding stack' by simp
    have c2: "mset (map (\<lambda>u. refine (tiles ts' u)) (map fst stack'))
           = mset (map (\<lambda>u. refine (tiles ts u)) (map fst (butlast stack)))
             + mset (map (\<lambda>u. refine (tiles ts' u)) [nextTile ts ..< nextTile ts'])"
      unfolding n' fs map_append m1 mset_append by (rule refl)
    show ?thesis by (intro conjI c1 c2)
  qed
  show "mset (stackRefines refineOf ts stack)
           = add_mset (refine (tiles ts t)) (mset (stackRefines refineOf ts' stack'))"
    and "mset (map (\<lambda>u. refine (tiles ts' u)) (map fst stack'))
           = mset (map (\<lambda>u. refine (tiles ts u)) (map fst (butlast stack)))
             + mset (map (\<lambda>u. refine (tiles ts' u)) [nextTile ts ..< nextTile ts'])"
    using both by blast+
qed


lemma loadLoop_refines:
  "\<forall>u \<in> fst ` set stack. u < nextTile ts \<Longrightarrow>
   mset (map (\<lambda>u. refine (tiles (loadLoop refineOf ts stack) u))
           [nextTile ts ..< nextTile (loadLoop refineOf ts stack)])
     + mset (map (\<lambda>u. refine (tiles ts u)) (map fst stack))
   = mset (stackRefines refineOf ts stack)"
proof (induction refineOf ts stack rule: loadLoop.induct)
  case (1 refineOf ts stack)
  show ?case
  proof (cases "stack = []")
    case True
    then show ?thesis by (simp add: loadLoop_Nil stackRefines_def)
  next
    case False
    obtain t h where l: "last stack = (t, h)" by (cases "last stack")
    obtain ts1 stack1 where v: "visit refineOf ts stack = (ts1, stack1)"
      by (cases "visit refineOf ts stack")
    note vf = visit_facts[OF False l v]
    note vr = visit_refines[OF False l v "1.prems"]
    let ?r = "loadLoop refineOf ts1 stack1"
    have pos: "length stack > 0" using False by simp
    have unfold: "loadLoop refineOf ts stack = ?r"
      using False v by (simp add: loadLoop.simps[of refineOf ts stack])
    have st: "stack = butlast stack @ [(t, h)]"
      using False l by (metis append_butlast_last_id)
    then have "set stack = set (butlast stack @ [(t, h)])" by simp
    then have ids: "fst ` set stack = fst ` set (butlast stack) \<union> {t}" by auto
    have below: "\<forall>u \<in> fst ` set stack1. u < nextTile ts1"
      using vf(1,2) "1.prems" ids by auto
    then have below': "\<forall>u \<in> fst ` set (snd (visit refineOf ts stack)).
        u < nextTile (fst (visit refineOf ts stack))"
      by (simp only: v fst_conv snd_conv)
    note ih = "1.IH"[OF pos below', unfolded v fst_conv snd_conv]
    note lf = loadLoop_facts[OF below, of refineOf]
    have le: "nextTile ts1 \<le> nextTile ?r" using lf by blast
    have keep: "\<forall>u < nextTile ts1. refine (tiles ?r u) = refine (tiles ts1 u)" using lf by blast
    have upt: "[nextTile ts ..< nextTile ?r] = [nextTile ts ..< nextTile ts1] @ [nextTile ts1 ..< nextTile ?r]"
      using vf(1) le by (metis le_Suc_ex upt_add_eq_append)
    have m1: "map (\<lambda>u. refine (tiles ?r u)) [nextTile ts ..< nextTile ts1]
        = map (\<lambda>u. refine (tiles ts1 u)) [nextTile ts ..< nextTile ts1]"
      using keep by simp
    have "map (\<lambda>u. refine (tiles ts u)) (map fst stack)
        = map (\<lambda>u. refine (tiles ts u)) (map fst (butlast stack)) @ [refine (tiles ts t)]"
      using arg_cong[OF st, of "\<lambda>s. map (\<lambda>u. refine (tiles ts u)) (map fst s)"] by simp
    then have m2: "mset (map (\<lambda>u. refine (tiles ts u)) (map fst stack))
        = add_mset (refine (tiles ts t)) (mset (map (\<lambda>u. refine (tiles ts u)) (map fst (butlast stack))))"
      by simp
    have "mset (map (\<lambda>u. refine (tiles ?r u)) [nextTile ts ..< nextTile ?r])
        + mset (map (\<lambda>u. refine (tiles ts u)) (map fst stack))
      = add_mset (refine (tiles ts t))
          (mset (map (\<lambda>u. refine (tiles ?r u)) [nextTile ts1 ..< nextTile ?r])
           + (mset (map (\<lambda>u. refine (tiles ts u)) (map fst (butlast stack)))
              + mset (map (\<lambda>u. refine (tiles ts1 u)) [nextTile ts ..< nextTile ts1])))"
      unfolding upt map_append mset_append m1 m2 by (simp add: ac_simps)
    also have "\<dots> = add_mset (refine (tiles ts t)) (mset (stackRefines refineOf ts1 stack1))"
      unfolding vr(2)[symmetric] ih ..
    also have "\<dots> = mset (stackRefines refineOf ts stack)"
      using vr(1) by simp
    finally show ?thesis unfolding unfold .
  qed
qed

text \<open>
  Claim C9. For a tileset JSON with an asset of version 0.0 or 1.0, \<open>loadTileset\<close>
  returns, and it has created one tile for every tile of the JSON (the root and all
  tiles reachable through the children lists): the tiles with the ids from the old to
  the new \<open>nextTile\<close>, whose refine modes are, as a multiset, the refine modes of the
  tiles of the JSON hierarchy. After the call \<open>_allTilesAdditive\<close> is true if and only
  if it was true on entry and every created tile has the refine mode \<open>ADD\<close>, that is,
  if and only if it was true on entry and every tile of the JSON hierarchy is additive.
\<close>

theorem loadTileset_allTilesAdditive:
  assumes "asset json = Some a" and "version a = ''0.0'' \<or> version a = ''1.0''"
  shows "\<exists>rootId ts'. loadTileset refineOf ts json parentTile = Inr (rootId, ts') \<and>
           rootId = nextTile ts \<and>
           nextTile ts' = nextTile ts + countTiles (rootHeader json) \<and>
           mset (map (\<lambda>u. refine (tiles ts' u)) [nextTile ts ..< nextTile ts'])
             = mset (hierarchyRefines refineOf
                      (refineOf (rootHeader json) (map_option (\<lambda>p. refine (tiles ts p)) parentTile))
                      (rootHeader json)) \<and>
           allTilesAdditive ts' =
             (allTilesAdditive ts \<and> (\<forall>u \<in> {nextTile ts ..< nextTile ts'}. refine (tiles ts' u) = ADD)) \<and>
           allTilesAdditive ts' =
             (allTilesAdditive ts \<and>
              (\<forall>r \<in> set (hierarchyRefines refineOf
                      (refineOf (rootHeader json) (map_option (\<lambda>p. refine (tiles ts p)) parentTile))
                      (rootHeader json)). r = ADD))"
proof -
  let ?versioned = "case tilesetVersion a of
                Some v \<Rightarrow>
                  ts\<lparr>basePath := Some ((case basePath ts of None \<Rightarrow> ''undefined'' | Some b \<Rightarrow> b)
                                      @ ''?v='' @ v)\<rparr>
              | None \<Rightarrow> ts"
  let ?rootRefine = "refineOf (rootHeader json) (map_option (\<lambda>p. refine (tiles ts p)) parentTile)"
  have n1: "nextTile ?versioned = nextTile ts" and a1: "allTilesAdditive ?versioned = allTilesAdditive ts"
    and t1: "tiles ?versioned = tiles ts"
    by (simp_all split: option.splits)
  obtain rootId ts2 where n: "newTile refineOf ?versioned (rootHeader json) parentTile = (rootId, ts2)"
    by (cases "newTile refineOf ?versioned (rootHeader json) parentTile")
  note nf = newTile_facts[OF n, unfolded n1 a1]
  have rootId: "rootId = nextTile ts" using nf by simp
  have r2: "refine (tiles ts2 rootId) = ?rootRefine"
    using n by (auto simp: newTile_def Let_def t1)
  let ?linked = "case parentTile of Some p \<Rightarrow> linkChild ts2 p rootId | None \<Rightarrow> ts2"
  have n3: "nextTile ?linked = Suc (nextTile ts)" and a3: "allTilesAdditive ?linked = allTilesAdditive ts"
    and r3: "refine (tiles ?linked rootId) = ?rootRefine"
    using nf r2 linkChild_facts by (simp_all split: option.splits)
  let ?loaded = "loadLoop refineOf ?linked [(rootId, rootHeader json)]"
  have run: "loadTileset refineOf ts json parentTile = Inr (rootId, ?loaded)"
    using assms n by (auto simp: loadTileset_def Let_def)
  have "rootId < nextTile ?linked"
    using n3 rootId by linarith
  then have below: "\<forall>u \<in> fst ` set [(rootId, rootHeader json)]. u < nextTile ?linked"
    by simp
  note lf = loadLoop_facts[OF below, of refineOf, unfolded n3 a3]
  note l1 = lf[THEN conjunct1]
  note l2 = lf[THEN conjunct2, THEN conjunct1]
  note l3 = lf[THEN conjunct2, THEN conjunct2, THEN conjunct1]
  note l4 = lf[THEN conjunct2, THEN conjunct2, THEN conjunct2]
  have count: "nextTile ?loaded = nextTile ts + countTiles (rootHeader json)"
    using l4 by (simp add: stackTiles_def)
  have "fst ` set [(rootId, rootHeader json)] \<union> {Suc (nextTile ts) ..< nextTile ?loaded}
      = {nextTile ts ..< nextTile ?loaded}"
    using l1 rootId by auto
  then have flag: "allTilesAdditive ?loaded =
      (allTilesAdditive ts \<and> (\<forall>u \<in> {nextTile ts ..< nextTile ?loaded}. refine (tiles ?loaded u) = ADD))"
    using l3 by simp
  have keep: "refine (tiles ?loaded rootId) = ?rootRefine"
    using l2 rootId r3 by simp
  have upt: "[nextTile ts ..< nextTile ?loaded] = nextTile ts # [Suc (nextTile ts) ..< nextTile ?loaded]"
    using l1 by (intro upt_conv_Cons) simp
  have "mset (map (\<lambda>u. refine (tiles ?loaded u)) [Suc (nextTile ts) ..< nextTile ?loaded])
      + mset (map (\<lambda>u. refine (tiles ?linked u)) (map fst [(rootId, rootHeader json)]))
      = mset (stackRefines refineOf ?linked [(rootId, rootHeader json)])"
    using loadLoop_refines[OF below, of refineOf] unfolding n3 .
  then have ms: "mset (map (\<lambda>u. refine (tiles ?loaded u)) [nextTile ts ..< nextTile ?loaded])
      = mset (hierarchyRefines refineOf ?rootRefine (rootHeader json))"
    unfolding upt using keep r3 rootId by (simp add: stackRefines_def)
  have "(\<forall>u \<in> {nextTile ts ..< nextTile ?loaded}. refine (tiles ?loaded u) = ADD)
      = (\<forall>r \<in> set (hierarchyRefines refineOf ?rootRefine (rootHeader json)). r = ADD)"
  proof -
    have "set (hierarchyRefines refineOf ?rootRefine (rootHeader json))
        = (\<lambda>u. refine (tiles ?loaded u)) ` {nextTile ts ..< nextTile ?loaded}"
      using arg_cong[OF ms, of set_mset] by simp
    then show ?thesis by auto
  qed
  then have flag2: "allTilesAdditive ?loaded =
      (allTilesAdditive ts \<and> (\<forall>r \<in> set (hierarchyRefines refineOf ?rootRefine (rootHeader json)). r = ADD))"
    using flag by simp
  show ?thesis
    by (intro exI[of _ rootId] exI[of _ ?loaded] conjI run rootId count ms flag flag2)
qed


theorem loadTileset_allTilesAdditive_witness:
  "(\<exists>rootId ts'. loadTileset refineFromHeader newTileset mixedJson None = Inr (rootId, ts') \<and>
      nextTile ts' = 3 \<and> refine (tiles ts' 2) = REPLACE \<and> \<not> allTilesAdditive ts') \<and>
   (\<exists>rootId ts'. loadTileset refineFromHeader newTileset additiveJson None = Inr (rootId, ts') \<and>
      nextTile ts' = 3 \<and> refine (tiles ts' 0) = ADD \<and> refine (tiles ts' 1) = ADD \<and>
      refine (tiles ts' 2) = ADD \<and> allTilesAdditive ts')"
proof -
  let ?mixed = "loadLoop refineFromHeader
      (snd (newTile refineFromHeader newTileset (rootHeader mixedJson) None))
      [(0, rootHeader mixedJson)]"
  let ?additive = "loadLoop refineFromHeader
      (snd (newTile refineFromHeader
          (newTileset\<lparr>basePath := Some (''undefined'' @ ''?v='' @ ''7'')\<rparr>)
          (rootHeader additiveJson) None))
      [(0, rootHeader additiveJson)]"
  have am: "asset mixedJson = Some \<lparr>version = ''1.0'', tilesetVersion = None\<rparr>"
    by (simp add: mixedJson_def)
  have aa: "asset additiveJson = Some \<lparr>version = ''1.0'', tilesetVersion = Some ''7''\<rparr>"
    by (simp add: additiveJson_def)
  have vm: "version \<lparr>version = ''1.0'', tilesetVersion = None\<rparr> = ''0.0'' \<or>
      version \<lparr>version = ''1.0'', tilesetVersion = None\<rparr> = ''1.0''"
    by simp
  have va: "version \<lparr>version = ''1.0'', tilesetVersion = Some ''7''\<rparr> = ''0.0'' \<or>
      version \<lparr>version = ''1.0'', tilesetVersion = Some ''7''\<rparr> = ''1.0''"
    by simp
  have hm: "hierarchyRefines refineFromHeader
      (refineFromHeader (rootHeader mixedJson) (map_option (\<lambda>p. refine (tiles newTileset p)) None))
      (rootHeader mixedJson) = [ADD, ADD, REPLACE]"
    by (simp add: mixedJson_def refineFromHeader_def)
  have ha: "hierarchyRefines refineFromHeader
      (refineFromHeader (rootHeader additiveJson) (map_option (\<lambda>p. refine (tiles newTileset p)) None))
      (rootHeader additiveJson) = [ADD, ADD, ADD]"
    by (simp add: additiveJson_def refineFromHeader_def)
  have cm: "countTiles (rootHeader mixedJson) = 3" by (simp add: mixedJson_def)
  have ca: "countTiles (rootHeader additiveJson) = 3" by (simp add: additiveJson_def)
  have n0: "nextTile newTileset = 0" and f0: "allTilesAdditive newTileset"
    by (simp_all add: newTileset_def)
  have runm: "loadTileset refineFromHeader newTileset mixedJson None = Inr (0, ?mixed)"
    by (simp add: loadTileset_def mixedJson_def Let_def newTile_def newTileset_def split: prod.splits)
  have runa: "loadTileset refineFromHeader newTileset additiveJson None = Inr (0, ?additive)"
    by (simp add: loadTileset_def additiveJson_def Let_def newTile_def newTileset_def split: prod.splits)
  have m2: "refine (tiles ?mixed 2) = REPLACE" by code_simp
  have a0: "refine (tiles ?additive 0) = ADD" by code_simp
  have a1: "refine (tiles ?additive 1) = ADD" by code_simp
  have a2: "refine (tiles ?additive 2) = ADD" by code_simp
  have mixed: "\<exists>rootId ts'. loadTileset refineFromHeader newTileset mixedJson None = Inr (rootId, ts') \<and>
      nextTile ts' = 3 \<and> refine (tiles ts' 2) = REPLACE \<and> \<not> allTilesAdditive ts'"
    using loadTileset_allTilesAdditive[OF am vm, of refineFromHeader newTileset None]
    unfolding hm cm n0 runm using f0 m2 by auto
  have additive: "\<exists>rootId ts'. loadTileset refineFromHeader newTileset additiveJson None = Inr (rootId, ts') \<and>
      nextTile ts' = 3 \<and> refine (tiles ts' 0) = ADD \<and> refine (tiles ts' 1) = ADD \<and>
      refine (tiles ts' 2) = ADD \<and> allTilesAdditive ts'"
    using loadTileset_allTilesAdditive[OF aa va, of refineFromHeader newTileset None]
    unfolding ha ca n0 runa using f0 a0 a1 a2 by auto
  show ?thesis using mixed additive by (rule conjI)
qed

end
